theory Spec2Isabelle
  imports Complex_Main "HOL-Library.Word"
begin

unbundle bit_operations_syntax

section \<open>The Ursula log checker: constants and data model\<close>

text \<open>
  The development embeds \<^verbatim>\<open>ursulalogcheck.c\<close>. C strings are \<open>string\<close> values (without
  the terminating NUL; a line never contains NUL or a newline), a \<^verbatim>\<open>char*\<close> that the code
  may leave \<^verbatim>\<open>NULL\<close> is a \<open>string option\<close>, an \<^verbatim>\<open>unsigned char\<close> is an \<open>8 word\<close>.
  The C \<^verbatim>\<open>float\<close> values are idealised as real numbers (no rounding), and the library
  function \<^verbatim>\<open>atof\<close> is a parameter of every function that calls it.
  Behaviour that C leaves undefined (a \<^verbatim>\<open>strcmp\<close> on \<^verbatim>\<open>NULL\<close>, an access outside an
  allocated array, a read behind a string's terminator) is an explicit outcome of the
  model: \<open>None\<close> in the helper functions, \<open>Undefined\<close> in the log reader.
  A log file is the list of the lines that \<^verbatim>\<open>getline\<close> returns, each without its newline
  and with a flag that tells whether it had one (only the last line of a file can lack
  it). The task is the structure that \<^verbatim>\<open>cyberiada_ursula_log_task_config\<close> builds; the
  loading of the configuration, the opening of the files and the digest of the signature
  are not modelled.
\<close>

definition MAX_CONDITIONS :: nat where
  "MAX_CONDITIONS = 7"

definition MAX_STR_LEN :: nat where
  "MAX_STR_LEN = 4096"

definition DELTA :: real where
  "DELTA = 1 / 1000"

definition URSULA_CHECK_NO_ERROR :: int where
  "URSULA_CHECK_NO_ERROR = 0"

definition URSULA_CHECK_BAD_PARAMETERS :: int where
  "URSULA_CHECK_BAD_PARAMETERS = 1"

definition URSULA_CHECK_FORMAT_ERROR :: int where
  "URSULA_CHECK_FORMAT_ERROR = 2"

type_synonym uchar = "8 word"

definition URSULA_CHECK_RESULT_ERROR :: uchar where
  "URSULA_CHECK_RESULT_ERROR = 0"

record Point =
  px :: real
  py :: real

datatype ObjectType = otPlayer | otMob | otIntObject | otStatic

record ObjectReq =
  req_type :: ObjectType
  req_class :: string
  minimum :: uchar
  limit :: uchar
  found :: uchar

record Object =
  obj_type :: ObjectType
  obj_class :: "string option"
  obj_id :: "string option"
  pos :: Point
  prev_pos :: Point
  hp :: real
  damage :: real
  pos_predefined :: bool
  valid :: bool

datatype ConditionType =
  condObjectProximity | condObjectApproaching | condObjectRetiring | condObjectMoving
  | condGameWon | condAttacked | condDamaged | condDestroyed

datatype Condition = Condition
  (n: uchar)
  (ctype: ConditionType)
  (primary_obj_type: ObjectType)
  (primary_obj_class: string)
  (secondary_obj_type: ObjectType)
  (secondary_obj_class: string)
  (argument: real)
  (second_cond: "Condition option")

record UrsulaCheckerTask =
  name :: string
  base_objects :: "Object list"
  object_reqs :: "ObjectReq list"
  conditions :: "Condition list"

record UrsulaLogCheckerData =
  secret :: "string option"
  tasks :: "UrsulaCheckerTask list"

type_synonym matrix = "uchar list list"

section \<open>Math and string helpers\<close>

definition DIST :: "Point \<Rightarrow> Point \<Rightarrow> real" where
  "DIST p1 p2 = sqrt ((px p1 - px p2) * (px p1 - px p2) + (py p1 - py p2) * (py p1 - py p2))"

text \<open>The three comparisons the source makes with \<^verbatim>\<open>DIST\<close>. Each has an equation
  without the square root (\<open>dist_le_code\<close>, \<open>dist_pos_code\<close>, \<open>dist_lt_code\<close>), so that
  it can be evaluated.\<close>

definition SQDIST :: "Point \<Rightarrow> Point \<Rightarrow> real" where
  "SQDIST p1 p2 = (px p1 - px p2) * (px p1 - px p2) + (py p1 - py p2) * (py p1 - py p2)"

definition dist_le :: "Point \<Rightarrow> Point \<Rightarrow> real \<Rightarrow> bool" where
  "dist_le p1 p2 d = (DIST p1 p2 \<le> d)"

definition dist_pos :: "Point \<Rightarrow> Point \<Rightarrow> bool" where
  "dist_pos p1 p2 = (DIST p1 p2 > 0)"

definition dist_lt :: "Point \<Rightarrow> Point \<Rightarrow> Point \<Rightarrow> Point \<Rightarrow> bool" where
  "dist_lt p1 p2 q1 q2 = (DIST p1 p2 < DIST q1 q2)"

lemma SQDIST_nonneg: "0 \<le> SQDIST p1 p2"
  by (simp add: SQDIST_def)

lemma DIST_SQDIST: "DIST p1 p2 = sqrt (SQDIST p1 p2)"
  by (simp add: DIST_def SQDIST_def)

lemma dist_le_code [code]: "dist_le p1 p2 d = (0 \<le> d \<and> SQDIST p1 p2 \<le> d * d)"
proof (cases "0 \<le> d")
  case True
  have "(sqrt (SQDIST p1 p2) \<le> d) = (SQDIST p1 p2 \<le> d\<^sup>2)"
    using True SQDIST_nonneg [of p1 p2] by (metis real_sqrt_le_iff real_sqrt_abs abs_of_nonneg)
  with True show ?thesis
    by (simp add: dist_le_def DIST_SQDIST power2_eq_square)
next
  case False
  have "0 \<le> sqrt (SQDIST p1 p2)"
    using SQDIST_nonneg [of p1 p2] by simp
  with False have "\<not> sqrt (SQDIST p1 p2) \<le> d"
    by linarith
  with False show ?thesis
    by (simp add: dist_le_def DIST_SQDIST)
qed

lemma dist_pos_code [code]: "dist_pos p1 p2 = (0 < SQDIST p1 p2)"
  by (simp add: dist_pos_def DIST_SQDIST)

lemma dist_lt_code [code]: "dist_lt p1 p2 q1 q2 = (SQDIST p1 p2 < SQDIST q1 q2)"
  by (simp add: dist_lt_def DIST_SQDIST)

definition copy_string :: "string \<Rightarrow> string" where
  "copy_string source = take (MAX_STR_LEN - 1) source"

text \<open>\<open>split_first c s\<close> is \<^verbatim>\<open>d = strchr(s, c); *d = 0\<close>: the text before the first \<open>c\<close> and
  the text from \<^verbatim>\<open>d + 1\<close> on, or \<open>None\<close> when \<^verbatim>\<open>strchr\<close> returns \<^verbatim>\<open>NULL\<close>.\<close>

primrec split_first :: "char \<Rightarrow> string \<Rightarrow> (string \<times> string) option" where
  "split_first c [] = None"
| "split_first c (a # s) =
     (if a = c then Some ([], s)
      else (case split_first c s of None \<Rightarrow> None | Some (u, v) \<Rightarrow> Some (a # u, v)))"

text \<open>\<^verbatim>\<open>strstr(s, t) == s\<close>\<close>

primrec starts_with :: "string \<Rightarrow> string \<Rightarrow> bool" where
  "starts_with s [] = True"
| "starts_with s (a # t) = (case s of [] \<Rightarrow> False | b # s' \<Rightarrow> a = b \<and> starts_with s' t)"

text \<open>\<^verbatim>\<open>strstr(s, t) != NULL\<close>\<close>

primrec contains_str :: "string \<Rightarrow> string \<Rightarrow> bool" where
  "contains_str [] t = (t = [])"
| "contains_str (a # s) t = (starts_with (a # s) t \<or> contains_str s t)"

definition is_blank :: "char \<Rightarrow> bool" where
  "is_blank c = (c = CHR '' '' \<or> c = CHR 0x09)"

text \<open>The backward loop \<^verbatim>\<open>while (d > s && P(*d)) { *d = 0; d--; }\<close> from the last
  character: it never removes the first character.\<close>

definition strip_tail :: "(char \<Rightarrow> bool) \<Rightarrow> string \<Rightarrow> string" where
  "strip_tail P s = (case s of [] \<Rightarrow> [] | a # t \<Rightarrow> a # rev (dropWhile P (rev t)))"

definition parse_coordinates :: "(string \<Rightarrow> real) \<Rightarrow> string \<Rightarrow> int + Point" where
  "parse_coordinates atof s0 =
     (let s = dropWhile (\<lambda>c. is_blank c \<or> c = CHR ''('') s0;
          s = strip_tail (\<lambda>c. is_blank c \<or> c = CHR '')'') s
      in case split_first CHR '','' s of
           None \<Rightarrow> Inl URSULA_CHECK_FORMAT_ERROR
         | Some (u, v) \<Rightarrow> Inr \<lparr>px = atof u, py = atof v\<rparr>)"

section \<open>The condition evaluator\<close>

text \<open>\<^verbatim>\<open>strcmp(a, b)\<close> read as a truth value (non-zero), with \<open>a\<close> possibly \<^verbatim>\<open>NULL\<close>.\<close>

definition strcmp_nz :: "string option \<Rightarrow> string \<Rightarrow> bool option" where
  "strcmp_nz a b = (case a of None \<Rightarrow> None | Some s \<Rightarrow> Some (s \<noteq> b))"

text \<open>\<^verbatim>\<open>strcmp(a, b) == 0\<close>\<close>

definition strcmp_eq :: "string option \<Rightarrow> string \<Rightarrow> bool option" where
  "strcmp_eq a b = (case a of None \<Rightarrow> None | Some s \<Rightarrow> Some (s = b))"

text \<open>The short-circuit \<^verbatim>\<open>&&\<close> over possibly undefined operands.\<close>

definition c_and :: "bool option \<Rightarrow> bool option \<Rightarrow> bool option" where
  "c_and a b = (case a of None \<Rightarrow> None | Some False \<Rightarrow> Some False | Some True \<Rightarrow> b)"

text \<open>The object filter
  \<^verbatim>\<open>o->type == t && (o->type == otPlayer || (o->type != otPlayer && strcmp(o->class, c) == 0))\<close>
  of the kinds Proximity, Approaching, Retiring and Attacked.\<close>

definition filter_eq :: "Object \<Rightarrow> ObjectType \<Rightarrow> string \<Rightarrow> bool option" where
  "filter_eq ob t c =
     (if obj_type ob = t
      then (if obj_type ob = otPlayer then Some True else strcmp_eq (obj_class ob) c)
      else Some False)"

text \<open>The object filter of the kinds Moving, Damaged and Destroyed, where the source has
  \<^verbatim>\<open>strcmp(o->class, c)\<close> with no comparison against 0.\<close>

definition filter_nz :: "Object \<Rightarrow> ObjectType \<Rightarrow> string \<Rightarrow> bool option" where
  "filter_nz ob t c =
     (if obj_type ob = t
      then (if obj_type ob = otPlayer then Some True else strcmp_nz (obj_class ob) c)
      else Some False)"

definition pair_filter :: "Condition \<Rightarrow> Object \<Rightarrow> Object \<Rightarrow> bool option" where
  "pair_filter cond primary secondary =
     c_and (filter_eq primary (primary_obj_type cond) (primary_obj_class cond))
           (filter_eq secondary (secondary_obj_type cond) (secondary_obj_class cond))"

text \<open>The inner loop \<^verbatim>\<open>for (j = 0; j < objects_count && !found; j++)\<close>: the value of
  \<^verbatim>\<open>found\<close> at its end.\<close>

primrec inner_loop :: "(nat \<Rightarrow> bool option) \<Rightarrow> nat list \<Rightarrow> bool option" where
  "inner_loop P [] = Some False"
| "inner_loop P (j # js) =
     (case P j of None \<Rightarrow> None | Some True \<Rightarrow> Some True | Some False \<Rightarrow> inner_loop P js)"

text \<open>The outer loop \<^verbatim>\<open>for (i = 0; i < objects_count && !found; i++)\<close>, which stores
  \<open>i\<close> in \<^verbatim>\<open>*primary_index\<close> at each round: \<^verbatim>\<open>found\<close> and \<^verbatim>\<open>*primary_index\<close> at its end.\<close>

primrec outer_loop :: "(nat \<Rightarrow> bool option) \<Rightarrow> nat list \<Rightarrow> nat \<Rightarrow> (bool \<times> nat) option" where
  "outer_loop Q [] primary_index = Some (False, primary_index)"
| "outer_loop Q (i # is) primary_index =
     (case Q i of None \<Rightarrow> None | Some True \<Rightarrow> Some (True, i) | Some False \<Rightarrow> outer_loop Q is i)"

definition pair_loop ::
  "(Object \<Rightarrow> Object \<Rightarrow> bool option) \<Rightarrow> Object list \<Rightarrow> nat \<Rightarrow> (bool \<times> nat) option" where
  "pair_loop T objects primary_index =
     outer_loop
       (\<lambda>i. inner_loop (\<lambda>j. if i = j then Some False else T (objects ! i) (objects ! j))
              [0..<length objects])
       [0..<length objects] primary_index"

text \<open>One level of \<^verbatim>\<open>cyberiada_test_condition\<close>: \<^verbatim>\<open>found\<close> and \<^verbatim>\<open>*primary_index\<close>
  before the second condition is looked at.\<close>

definition test_first ::
  "Condition \<Rightarrow> Object list \<Rightarrow> Object option \<Rightarrow> nat \<Rightarrow> Object option \<Rightarrow> real \<Rightarrow> bool
     \<Rightarrow> (bool \<times> nat) option" where
  "test_first cond objects primary primary_index secondary arg won =
     (case ctype cond of
        condObjectProximity \<Rightarrow>
          pair_loop (\<lambda>p s. c_and (pair_filter cond p s)
                             (Some (dist_le (pos p) (pos s) (argument cond))))
            objects primary_index
      | condObjectMoving \<Rightarrow>
          outer_loop
            (\<lambda>i. c_and (filter_nz (objects ! i) (primary_obj_type cond) (primary_obj_class cond))
                    (Some (dist_pos (pos (objects ! i)) (prev_pos (objects ! i)))))
            [0..<length objects] primary_index
      | condObjectApproaching \<Rightarrow>
          pair_loop (\<lambda>p s. c_and (pair_filter cond p s)
                             (Some (dist_lt (pos p) (pos s) (prev_pos p) (prev_pos s))))
            objects primary_index
      | condObjectRetiring \<Rightarrow>
          pair_loop (\<lambda>p s. c_and (pair_filter cond p s)
                             (Some (dist_lt (prev_pos p) (prev_pos s) (pos p) (pos s))))
            objects primary_index
      | condAttacked \<Rightarrow>
          (case (primary, secondary) of
             (Some p, Some s) \<Rightarrow>
               map_option (\<lambda>b. (b, primary_index))
                 (c_and (pair_filter cond p s) (Some (argument cond \<ge> arg)))
           | _ \<Rightarrow> Some (False, primary_index))
      | condDamaged \<Rightarrow>
          (case primary of
             None \<Rightarrow> Some (False, primary_index)
           | Some p \<Rightarrow>
               map_option (\<lambda>b. (b, primary_index))
                 (c_and (filter_nz p (primary_obj_type cond) (primary_obj_class cond))
                        (Some (argument cond \<ge> arg))))
      | condDestroyed \<Rightarrow>
          (case primary of
             None \<Rightarrow> Some (False, primary_index)
           | Some p \<Rightarrow>
               map_option (\<lambda>b. (b, primary_index))
                 (filter_nz p (primary_obj_type cond) (primary_obj_class cond)))
      | condGameWon \<Rightarrow> Some (won, primary_index))"

text \<open>\<^verbatim>\<open>cyberiada_test_condition\<close>: the return value and the final \<^verbatim>\<open>*primary_index\<close>.\<close>

fun test_condition ::
  "Condition \<Rightarrow> Object list \<Rightarrow> Object option \<Rightarrow> nat \<Rightarrow> Object option \<Rightarrow> real \<Rightarrow> bool
     \<Rightarrow> (bool \<times> nat) option" where
  "test_condition (Condition cn ct pt pc st sc ca second) objects primary primary_index
       secondary arg won =
     (case test_first (Condition cn ct pt pc st sc ca second) objects primary primary_index
             secondary arg won of
        None \<Rightarrow> None
      | Some (fnd, pidx) \<Rightarrow>
          if fnd then
            (case second of
               Some c2 \<Rightarrow> test_condition c2 objects None pidx None 0 False
             | None \<Rightarrow> Some (True, pidx))
          else Some (False, pidx))"

section \<open>The satisfaction matrix\<close>

text \<open>\<^verbatim>\<open>cond_matrix[j][k]\<close>, read and set to 1; \<open>None\<close> outside the allocated rows and
  columns.\<close>

definition mget :: "matrix \<Rightarrow> nat \<Rightarrow> nat \<Rightarrow> uchar option" where
  "mget m j k = (if j < length m \<and> k < length (m ! j) then Some (m ! j ! k) else None)"

definition mset1 :: "matrix \<Rightarrow> nat \<Rightarrow> nat \<Rightarrow> matrix option" where
  "mset1 m i k =
     (if i < length m \<and> k < length (m ! i) then Some (m[i := (m ! i)[k := 1]]) else None)"

text \<open>The loop \<^verbatim>\<open>for (j = i + 1; j < task->conditions_count; j++)\<close> with its
  \<^verbatim>\<open>break\<close>: the value of \<^verbatim>\<open>found\<close>.\<close>

primrec later_found :: "matrix \<Rightarrow> nat list \<Rightarrow> nat \<Rightarrow> bool option" where
  "later_found m [] k = Some False"
| "later_found m (j # js) k =
     (case mget m j k of
        None \<Rightarrow> None
      | Some v \<Rightarrow> if v \<noteq> 0 then Some True else later_found m js k)"

definition credit :: "nat \<Rightarrow> matrix \<Rightarrow> nat \<Rightarrow> nat \<Rightarrow> matrix option" where
  "credit conditions_count m i k =
     (case later_found m [Suc i..<conditions_count] k of
        None \<Rightarrow> None
      | Some True \<Rightarrow> Some m
      | Some False \<Rightarrow> mset1 m i k)"

text \<open>The loop over \<^verbatim>\<open>obj_index\<close> of the GameWon branch.\<close>

primrec credit_all :: "nat \<Rightarrow> nat \<Rightarrow> nat list \<Rightarrow> matrix \<Rightarrow> matrix option" where
  "credit_all conditions_count i [] m = Some m"
| "credit_all conditions_count i (k # ks) m =
     (case credit conditions_count m i k of
        None \<Rightarrow> None
      | Some m' \<Rightarrow> credit_all conditions_count i ks m')"

text \<open>The body of the loop of \<^verbatim>\<open>cyberiada_test_all_conditions\<close> once condition \<open>i\<close>
  has tested as matched, with \<open>k\<close> the value of \<^verbatim>\<open>primary_index\<close> after the test.\<close>

definition record_match ::
  "UrsulaCheckerTask \<Rightarrow> nat \<Rightarrow> matrix \<Rightarrow> nat \<Rightarrow> nat \<Rightarrow> matrix option" where
  "record_match task objects_count m i k =
     (if ctype (conditions task ! i) = condGameWon
      then credit_all (length (conditions task)) i [0..<objects_count] m
      else credit (length (conditions task)) m i k)"

primrec conditions_loop ::
  "UrsulaCheckerTask \<Rightarrow> Object list \<Rightarrow> Object option \<Rightarrow> Object option \<Rightarrow> real \<Rightarrow> bool
     \<Rightarrow> nat list \<Rightarrow> matrix \<Rightarrow> nat \<Rightarrow> matrix option" where
  "conditions_loop task objects primary secondary arg won [] m primary_index = Some m"
| "conditions_loop task objects primary secondary arg won (i # is) m primary_index =
     (case test_condition (conditions task ! i) objects primary primary_index secondary arg won of
        None \<Rightarrow> None
      | Some (fnd, k) \<Rightarrow>
          if fnd then
            (case record_match task (length objects) m i k of
               None \<Rightarrow> None
             | Some m' \<Rightarrow> conditions_loop task objects primary secondary arg won is m' k)
          else conditions_loop task objects primary secondary arg won is m k)"

definition test_all_conditions ::
  "UrsulaCheckerTask \<Rightarrow> Object list \<Rightarrow> matrix \<Rightarrow> Object option \<Rightarrow> nat \<Rightarrow> Object option
     \<Rightarrow> real \<Rightarrow> bool \<Rightarrow> matrix option" where
  "test_all_conditions task objects cond_matrix primary primary_index secondary arg won =
     conditions_loop task objects primary secondary arg won
       [0..<length (conditions task)] cond_matrix primary_index"

text \<open>The outcomes of the tests of that loop, in the order of the rounds: what
  \<^verbatim>\<open>cyberiada_test_condition\<close> returns for each condition and the value it leaves in
  \<^verbatim>\<open>primary_index\<close>, with which the next round starts. The tests do not read the
  matrix.\<close>

primrec tests_loop ::
  "UrsulaCheckerTask \<Rightarrow> Object list \<Rightarrow> Object option \<Rightarrow> Object option \<Rightarrow> real \<Rightarrow> bool
     \<Rightarrow> nat list \<Rightarrow> nat \<Rightarrow> (bool \<times> nat) list option" where
  "tests_loop task objects primary secondary arg won [] primary_index = Some []"
| "tests_loop task objects primary secondary arg won (i # is) primary_index =
     (case test_condition (conditions task ! i) objects primary primary_index secondary arg won of
        None \<Rightarrow> None
      | Some (fnd, k) \<Rightarrow>
          map_option ((#) (fnd, k)) (tests_loop task objects primary secondary arg won is k))"

section \<open>The log reader: scene\<close>

definition LOG_PLAYER_START_POSITION :: string where
  "LOG_PLAYER_START_POSITION = ''Player Start Position''"

definition LOG_SCENE_OBJECT_HEADER :: string where
  "LOG_SCENE_OBJECT_HEADER = ''ID | Name | Object ID | Type | Position | HP | Damage''"

definition LOG_HLINE :: string where
  "LOG_HLINE = ''---''"

definition LOG_MOB :: string where
  "LOG_MOB = ''mob''"

definition LOG_INT_OBJECT :: string where
  "LOG_INT_OBJECT = ''interactive_object''"

definition LOG_POSITION :: string where
  "LOG_POSITION = ''position:''"

definition LOG_PLAYER :: string where
  "LOG_PLAYER = ''Player''"

definition LOG_ATTACK :: string where
  "LOG_ATTACK = ''attack ''"

definition LOG_ATTACKED :: string where
  "LOG_ATTACKED = ''attacked ''"

definition LOG_DIED :: string where
  "LOG_DIED = ''died''"

definition LOG_GAME_OVER :: string where
  "LOG_GAME_OVER = ''Game Over: ''"

definition LOG_WIN :: string where
  "LOG_WIN = ''Win''"

definition LOG_SESSION_ENDED :: string where
  "LOG_SESSION_ENDED = ''Session ended''"

text \<open>An element of the \<^verbatim>\<open>objects\<close> array after \<^verbatim>\<open>memset(objects, 0, ...)\<close>.\<close>

definition zero_object :: Object where
  "zero_object = \<lparr>obj_type = otPlayer, obj_class = None, obj_id = None,
     pos = \<lparr>px = 0, py = 0\<rparr>, prev_pos = \<lparr>px = 0, py = 0\<rparr>, hp = 0, damage = 0,
     pos_predefined = False, valid = False\<rparr>"

text \<open>The trimming of a scene field: leading blanks, then trailing blanks behind the
  first character.\<close>

definition trim_field :: "string \<Rightarrow> string" where
  "trim_field f = strip_tail is_blank (dropWhile is_blank f)"

text \<open>The parsing of one scene row into \<^verbatim>\<open>objects[i]\<close>; \<open>None\<close> is \<^verbatim>\<open>goto error_log\<close>.\<close>

definition parse_object :: "(string \<Rightarrow> real) \<Rightarrow> string \<Rightarrow> Object \<Rightarrow> Object option" where
  "parse_object atof buffer ob =
     (case split_first CHR ''|'' buffer of None \<Rightarrow> None | Some (f0, s1) \<Rightarrow>
      if trim_field f0 = [] then None else
     (case split_first CHR ''|'' s1 of None \<Rightarrow> None | Some (f1, s2) \<Rightarrow>
      if trim_field f1 = [] then None else
     (case split_first CHR ''|'' s2 of None \<Rightarrow> None | Some (f2, s3) \<Rightarrow>
     (case split_first CHR ''|'' s3 of None \<Rightarrow> None | Some (f3, s4) \<Rightarrow>
     (case split_first CHR ''|'' s4 of None \<Rightarrow> None | Some (f4, s5) \<Rightarrow>
     (case parse_coordinates atof (trim_field f4) of Inl e \<Rightarrow> None | Inr p \<Rightarrow>
     (case split_first CHR ''|'' s5 of None \<Rightarrow> None | Some (f5, s6) \<Rightarrow>
        Some (ob\<lparr>obj_id := Some (copy_string (trim_field f0)),
                 obj_class := Some (copy_string (trim_field f1)),
                 obj_type := (if trim_field f3 = LOG_MOB then otMob
                              else if trim_field f3 = LOG_INT_OBJECT then otIntObject
                              else otStatic),
                 pos := p, prev_pos := p, pos_predefined := True,
                 hp := atof (trim_field f5),
                 damage := atof s6\<rparr>))))))))"

text \<open>Whether the row gets as far as the first store into \<^verbatim>\<open>objects[i]\<close>.\<close>

definition row_has_id :: "string \<Rightarrow> bool" where
  "row_has_id buffer =
     (case split_first CHR ''|'' buffer of None \<Rightarrow> False | Some (f0, s1) \<Rightarrow> trim_field f0 \<noteq> [])"

text \<open>The five tests of a base object \<open>b\<close> against a scene object \<open>ob\<close>.\<close>

definition base_matches :: "Object \<Rightarrow> Object \<Rightarrow> bool" where
  "base_matches b ob =
     (let types = (obj_type b = obj_type ob);
          classes =
            ((case obj_class ob of
                None \<Rightarrow> False
              | Some oc \<Rightarrow> oc \<noteq> [] \<and>
                  (case obj_class b of None \<Rightarrow> False | Some bc \<Rightarrow> bc \<noteq> [] \<and> bc = oc))
             \<or> (case obj_class b of None \<Rightarrow> True | Some bc \<Rightarrow> bc = []));
          positions =
            ((pos_predefined b \<and> dist_le (pos ob) (pos b) DELTA) \<or> \<not> pos_predefined b);
          hps = ((hp b > 0 \<and> hp b = hp ob) \<or> hp b = 0);
          damages = ((damage b > 0 \<and> damage b = damage ob) \<or> damage b = 0)
      in types \<and> classes \<and> positions \<and> hps \<and> damages)"

definition mark_base :: "Object \<Rightarrow> Object \<Rightarrow> Object" where
  "mark_base ob b = (if base_matches b ob \<and> \<not> valid b then b\<lparr>valid := True\<rparr> else b)"

text \<open>The loop over the object requirements for one scene object; \<open>None\<close> is the
  \<^verbatim>\<open>strcmp\<close> on a \<^verbatim>\<open>NULL\<close> class.\<close>

primrec count_reqs :: "Object \<Rightarrow> ObjectReq list \<Rightarrow> ObjectReq list option" where
  "count_reqs ob [] = Some []"
| "count_reqs ob (r # rs) =
     (if req_type r = obj_type ob then
        (case strcmp_eq (obj_class ob) (req_class r) of
           None \<Rightarrow> None
         | Some b \<Rightarrow>
             map_option ((#) (if b then r\<lparr>found := found r + 1\<rparr> else r)) (count_reqs ob rs))
      else map_option ((#) r) (count_reqs ob rs))"

text \<open>The loop \<^verbatim>\<open>for (i = 0; i < objects_count; i++)\<close> of the scene check: it marks base
  objects and counts requirements in the task itself.\<close>

primrec check_objects :: "Object list \<Rightarrow> UrsulaCheckerTask \<Rightarrow> UrsulaCheckerTask option" where
  "check_objects [] task = Some task"
| "check_objects (ob # obs) task =
     (case count_reqs ob (object_reqs task) of
        None \<Rightarrow> None
      | Some rs \<Rightarrow>
          check_objects obs
            (task\<lparr>base_objects := map (mark_base ob) (base_objects task), object_reqs := rs\<rparr>))"

definition player_object :: "Point \<Rightarrow> Object \<Rightarrow> Object" where
  "player_object player_pos ob =
     ob\<lparr>obj_type := otPlayer, obj_class := None, obj_id := None,
        pos := \<lparr>px = px player_pos, py = py player_pos\<rparr>,
        prev_pos := \<lparr>px = py player_pos, py = py (prev_pos ob)\<rparr>,
        hp := 0, damage := 0, pos_predefined := True\<rparr>"

section \<open>The log reader: events\<close>

datatype lookup = Lookup_undefined | Not_found | Found_at nat

datatype 'a res = Done 'a | Failed | Undef

text \<open>The search for the player of a position entry (first object of type Player).\<close>

primrec find_player :: "Object list \<Rightarrow> nat \<Rightarrow> lookup" where
  "find_player [] i = Not_found"
| "find_player (ob # obs) i =
     (if obj_type ob = otPlayer then Found_at i else find_player obs (Suc i))"

text \<open>The search by id of a position entry: the first object that is not the player and
  whose id is \<open>s\<close>. The \<^verbatim>\<open>strcmp\<close> on a \<^verbatim>\<open>NULL\<close> id is \<open>Lookup_undefined\<close>.\<close>

primrec find_by_id :: "string \<Rightarrow> Object list \<Rightarrow> nat \<Rightarrow> lookup" where
  "find_by_id s [] i = Not_found"
| "find_by_id s (ob # obs) i =
     (if obj_type ob \<noteq> otPlayer then
        (case strcmp_eq (obj_id ob) s of
           None \<Rightarrow> Lookup_undefined
         | Some True \<Rightarrow> Found_at i
         | Some False \<Rightarrow> find_by_id s obs (Suc i))
      else find_by_id s obs (Suc i))"

text \<open>The search of the attack, attacked and died events: no \<^verbatim>\<open>break\<close>, the last
  object that fits is kept; \<open>acc\<close> is the pointer found so far.\<close>

primrec find_actor :: "string \<Rightarrow> Object list \<Rightarrow> nat \<Rightarrow> lookup \<Rightarrow> lookup" where
  "find_actor s [] j acc = acc"
| "find_actor s (ob # obs) j acc =
     (if obj_type ob = otPlayer
      then find_actor s obs (Suc j) (if LOG_PLAYER = s then Found_at j else acc)
      else (case strcmp_eq (obj_id ob) s of
              None \<Rightarrow> Lookup_undefined
            | Some b \<Rightarrow> find_actor s obs (Suc j) (if b then Found_at j else acc)))"

lemma split_first_length: "split_first c s = Some (u, v) \<Longrightarrow> length v < length s"
  by (induction s arbitrary: u) (auto split: if_splits option.splits)

lemma dropWhile_tail_length:
  "split_first c (dropWhile P s) = Some (u, v) \<Longrightarrow> length v < length s"
  using split_first_length [of c "dropWhile P s" u v] length_dropWhile_le [of P s] by simp

lemma dropWhile_Cons_tail_length:
  "split_first c (if P a then dropWhile P t else a # t) = Some (u, v)
     \<Longrightarrow> length v < Suc (length t)"
  using dropWhile_tail_length [of c P "a # t" u v] by simp

text \<open>The loop \<^verbatim>\<open>while (*s)\<close> over the entries of a position line. \<open>nl\<close> tells whether
  the line ended with a newline in the file: the last entry, when it has no \<^verbatim>\<open>;\<close>,
  leaves \<open>s\<close> one character behind the terminator, where the newline that was replaced
  by NUL left a second NUL only if there was one.\<close>

function position_loop ::
  "(string \<Rightarrow> real) \<Rightarrow> bool \<Rightarrow> Object list \<Rightarrow> string \<Rightarrow> Object list res" where
  "position_loop atof nl objects [] = Done objects"
| "position_loop atof nl objects (a # t) =
     (let s = dropWhile is_blank (a # t);
          entry = (case split_first CHR '';'' s of None \<Rightarrow> s | Some (u, v) \<Rightarrow> u)
      in case split_first CHR '' '' entry of
           None \<Rightarrow> Failed
         | Some (ident, s1) \<Rightarrow>
             (case (if starts_with ident LOG_PLAYER then find_player objects 0
                    else find_by_id ident objects 0) of
                Lookup_undefined \<Rightarrow> Undef
              | Not_found \<Rightarrow> Failed
              | Found_at i \<Rightarrow>
                  (case (if starts_with ident LOG_PLAYER then Some s1
                         else map_option snd (split_first CHR '' '' s1)) of
                     None \<Rightarrow> Failed
                   | Some s2 \<Rightarrow>
                       (case parse_coordinates atof s2 of
                          Inl e \<Rightarrow> Failed
                        | Inr p \<Rightarrow>
                            (case split_first CHR '';'' s of
                               None \<Rightarrow>
                                 if nl
                                 then Done (objects[i := (objects ! i)
                                              \<lparr>prev_pos := pos (objects ! i), pos := p\<rparr>])
                                 else Undef
                             | Some (u, v) \<Rightarrow>
                                 position_loop atof nl
                                   (objects[i := (objects ! i)
                                      \<lparr>prev_pos := pos (objects ! i), pos := p\<rparr>]) v)))))"
  by pat_completeness auto
termination
  by (relation "measure (\<lambda>(atof, nl, objects, s). length s)")
     (auto dest: dropWhile_Cons_tail_length)

text \<open>The token of an attacked event: \<^verbatim>\<open>d2 = d - 1; if (*d2 == ',') *d2 = 0;\<close>. For an
  empty token \<open>d2\<close> points at the blank or NUL in front of it, never at a comma.\<close>

definition strip_comma :: "string \<Rightarrow> string" where
  "strip_comma tok = (if tok \<noteq> [] \<and> last tok = CHR '','' then butlast tok else tok)"

definition attack_event ::
  "(string \<Rightarrow> real) \<Rightarrow> UrsulaCheckerTask \<Rightarrow> Object list \<Rightarrow> matrix \<Rightarrow> string \<Rightarrow> matrix res" where
  "attack_event atof task objects m s0 =
     (case split_first CHR '' '' s0 of None \<Rightarrow> Failed | Some (t0, s1) \<Rightarrow>
     (case find_actor t0 objects 0 Not_found of
        Lookup_undefined \<Rightarrow> Undef
      | Not_found \<Rightarrow> Failed
      | Found_at attacker_index \<Rightarrow>
     (case split_first CHR '' '' s1 of None \<Rightarrow> Failed | Some (t1, s2) \<Rightarrow>
     (case split_first CHR '' '' s2 of None \<Rightarrow> Failed | Some (t2, s3) \<Rightarrow>
     (case split_first CHR '' '' s3 of None \<Rightarrow> Failed | Some (t3, s4) \<Rightarrow>
     (case split_first CHR '' '' s4 of None \<Rightarrow> Failed | Some (t4, s5) \<Rightarrow>
     (case find_actor s5 objects 0 Not_found of
        Lookup_undefined \<Rightarrow> Undef
      | Not_found \<Rightarrow> Failed
      | Found_at target_index \<Rightarrow>
          (case test_all_conditions task objects m (Some (objects ! attacker_index))
                  attacker_index (Some (objects ! target_index)) (atof t2) False of
             None \<Rightarrow> Undef
           | Some m' \<Rightarrow> Done m'))))))))"

definition attacked_event ::
  "(string \<Rightarrow> real) \<Rightarrow> UrsulaCheckerTask \<Rightarrow> Object list \<Rightarrow> matrix \<Rightarrow> string \<Rightarrow> matrix res" where
  "attacked_event atof task objects m s0 =
     (case split_first CHR '' '' s0 of None \<Rightarrow> Failed | Some (t0, s1) \<Rightarrow>
     (case find_actor (strip_comma t0) objects 0 Not_found of
        Lookup_undefined \<Rightarrow> Undef
      | Not_found \<Rightarrow> Failed
      | Found_at target_index \<Rightarrow>
     (case split_first CHR '' '' s1 of None \<Rightarrow> Failed | Some (t1, s2) \<Rightarrow>
     (case split_first CHR '' '' s2 of None \<Rightarrow> Failed | Some (t2, s3) \<Rightarrow>
     (case split_first CHR '' '' s3 of None \<Rightarrow> Failed | Some (t3, s4) \<Rightarrow>
          (case test_all_conditions task objects m (Some (objects ! target_index))
                  target_index None (atof (strip_comma t3)) False of
             None \<Rightarrow> Undef
           | Some m' \<Rightarrow> Done m'))))))"

definition died_event ::
  "UrsulaCheckerTask \<Rightarrow> Object list \<Rightarrow> matrix \<Rightarrow> string \<Rightarrow> matrix res" where
  "died_event task objects m s0 =
     (case split_first CHR '' '' s0 of None \<Rightarrow> Failed | Some (t0, s1) \<Rightarrow>
     (case find_actor t0 objects 0 Not_found of
        Lookup_undefined \<Rightarrow> Undef
      | Not_found \<Rightarrow> Failed
      | Found_at died_index \<Rightarrow>
          (case test_all_conditions task objects m (Some (objects ! died_index))
                  died_index None 0 False of
             None \<Rightarrow> Undef
           | Some m' \<Rightarrow> Done m')))"

section \<open>The log reader: the loop over the lines\<close>

text \<open>The local variables of \<^verbatim>\<open>cyberiada_ursula_log_checker_check_log\<close> that live across
  the lines of the log, and the task, whose base objects and requirements the scene check
  writes to. \<open>rd_i\<close> is the variable \<^verbatim>\<open>i\<close>, read as the row index of the scene only.\<close>

record reader =
  rd_state :: char
  rd_player_pos :: Point
  rd_objects :: "Object list option"
  rd_objects_count :: nat
  rd_i :: nat
  rd_cond_matrix :: "matrix option"
  rd_task :: UrsulaCheckerTask

text \<open>What one round of the \<^verbatim>\<open>while (!feof(log))\<close> loop ends with: the next round,
  the next round after \<^verbatim>\<open>fseek(log, 0, SEEK_SET)\<close>, \<^verbatim>\<open>break\<close>, \<^verbatim>\<open>goto error_log\<close>, or
  undefined behaviour.\<close>

datatype step = Continue reader | Rewind reader | Break reader | Error_log reader | Undefined

text \<open>State \<^verbatim>\<open>'o'\<close> while \<^verbatim>\<open>objects\<close> is \<^verbatim>\<open>NULL\<close>: counting. The test
  \<^verbatim>\<open>objects_count == 0\<close> that follows the increment cannot hold and is left out.\<close>

definition count_step :: "reader \<Rightarrow> string \<Rightarrow> step" where
  "count_step r buffer =
     (let cnt = Suc (rd_objects_count r)
      in if starts_with buffer LOG_HLINE
         then Rewind (r\<lparr>rd_objects_count := cnt, rd_state := CHR ''s'',
                        rd_objects := Some (replicate cnt zero_object), rd_i := 0\<rparr>)
         else Continue (r\<lparr>rd_objects_count := cnt\<rparr>))"

text \<open>State \<^verbatim>\<open>'o'\<close> with \<^verbatim>\<open>objects\<close> allocated: a row is parsed into \<^verbatim>\<open>objects[i]\<close>, the
  delimiter line adds the player, checks the scene against the task and allocates the
  matrix.\<close>

definition scene_step :: "(string \<Rightarrow> real) \<Rightarrow> reader \<Rightarrow> Object list \<Rightarrow> string \<Rightarrow> step" where
  "scene_step atof r objects buffer =
     (if starts_with buffer LOG_HLINE then
        (if rd_i r \<noteq> rd_objects_count r - 1 then Error_log r
         else if \<not> rd_i r < length objects then Undefined
         else
           (let objects' = objects[rd_i r := player_object (rd_player_pos r) (objects ! rd_i r)]
            in case check_objects objects' (rd_task r) of
                 None \<Rightarrow> Undefined
               | Some task' \<Rightarrow>
                   (let r' = r\<lparr>rd_objects := Some objects', rd_task := task'\<rparr>
                    in if list_ex (\<lambda>b. \<not> valid b) (base_objects task') then Error_log r'
                       else if list_ex (\<lambda>q. found q < minimum q \<or> found q > limit q)
                                 (object_reqs task')
                       then Error_log r'
                       else Continue
                              (r'\<lparr>rd_cond_matrix :=
                                     Some (replicate MAX_CONDITIONS
                                             (replicate (rd_objects_count r) 0)),
                                   rd_state := CHR ''l''\<rparr>))))
      else if rd_i r < length objects then
        (case parse_object atof buffer (objects ! rd_i r) of
           None \<Rightarrow> Error_log r
         | Some ob \<Rightarrow> Continue (r\<lparr>rd_objects := Some (objects[rd_i r := ob]),
                                   rd_i := Suc (rd_i r)\<rparr>))
      else if row_has_id buffer then Undefined
      else Error_log r)"

definition matrix_step :: "reader \<Rightarrow> matrix res \<Rightarrow> step" where
  "matrix_step r x =
     (case x of
        Done m' \<Rightarrow> Continue (r\<lparr>rd_cond_matrix := Some m'\<rparr>)
      | Failed \<Rightarrow> Error_log r
      | Undef \<Rightarrow> Undefined)"

text \<open>State \<^verbatim>\<open>'l'\<close>: one line of the event section.\<close>

definition event_step ::
  "(string \<Rightarrow> real) \<Rightarrow> reader \<Rightarrow> Object list \<Rightarrow> matrix \<Rightarrow> string \<times> bool \<Rightarrow> step" where
  "event_step atof r objects m lin =
     (case fst lin of
        [] \<Rightarrow> Continue r
      | a # t \<Rightarrow>
          if a \<noteq> CHR ''['' then Continue r
          else
            (case split_first CHR '']'' t of
               None \<Rightarrow> Error_log r
             | Some (tm, s0) \<Rightarrow>
                 (let s = dropWhile is_blank s0
                  in if contains_str s LOG_POSITION then
                       (case position_loop atof (snd lin) objects s of
                          Failed \<Rightarrow> Error_log r
                        | Undef \<Rightarrow> Undefined
                        | Done objects' \<Rightarrow>
                            matrix_step (r\<lparr>rd_objects := Some objects'\<rparr>)
                              (case test_all_conditions (rd_task r) objects' m None 0 None 0 False of
                                 None \<Rightarrow> Undef
                               | Some m' \<Rightarrow> Done m'))
                     else if starts_with s LOG_ATTACK then
                       matrix_step r
                         (attack_event atof (rd_task r) objects m (drop (length LOG_ATTACK) s))
                     else if starts_with s LOG_ATTACKED then
                       matrix_step r
                         (attacked_event atof (rd_task r) objects m (drop (length LOG_ATTACKED) s))
                     else if contains_str s LOG_DIED then
                       matrix_step r (died_event (rd_task r) objects m s)
                     else if starts_with s LOG_GAME_OVER then
                       (if drop (length LOG_GAME_OVER) s \<noteq> LOG_WIN then Continue r
                        else matrix_step r
                               (case test_all_conditions (rd_task r) objects m None 0 None 0 True of
                                  None \<Rightarrow> Undef
                                | Some m' \<Rightarrow> Done m'))
                     else if starts_with s LOG_SESSION_ENDED then Break r
                     else Error_log r)))"

text \<open>The body of the loop for one line (its text without the newline, and whether it
  had one).\<close>

definition log_step :: "(string \<Rightarrow> real) \<Rightarrow> reader \<Rightarrow> string \<times> bool \<Rightarrow> step" where
  "log_step atof r lin =
     (if rd_state r = CHR ''p'' then
        (if starts_with (fst lin) LOG_PLAYER_START_POSITION then
           (case parse_coordinates atof (drop (length LOG_PLAYER_START_POSITION) (fst lin)) of
              Inl e \<Rightarrow> Error_log r
            | Inr p \<Rightarrow> Continue (r\<lparr>rd_player_pos := p, rd_state := CHR ''s''\<rparr>))
         else Continue r)
      else if rd_state r = CHR ''s'' then
        (if starts_with (fst lin) LOG_SCENE_OBJECT_HEADER
         then Continue (r\<lparr>rd_state := CHR ''o''\<rparr>)
         else Continue r)
      else if rd_state r = CHR ''o'' then
        (case rd_objects r of
           None \<Rightarrow> count_step r (fst lin)
         | Some objects \<Rightarrow> scene_step atof r objects (fst lin))
      else if rd_state r = CHR ''l'' then
        (case rd_objects r of
           None \<Rightarrow> Undefined
         | Some objects \<Rightarrow>
             (case rd_cond_matrix r of
                None \<Rightarrow> Undefined
              | Some m \<Rightarrow> event_step atof r objects m lin))
      else Error_log r)"

lemma matrix_step_not_Rewind: "matrix_step r x \<noteq> Rewind r'"
  by (simp add: matrix_step_def split: res.splits)

lemma matrix_step_Continue: "matrix_step r x = Continue r' \<Longrightarrow> rd_objects r' = rd_objects r"
  by (auto simp add: matrix_step_def split: res.splits)

lemma event_step_not_Rewind: "event_step atof r objects m lin \<noteq> Rewind r'"
  by (simp add: event_step_def Let_def matrix_step_not_Rewind
      split: list.splits option.splits res.splits prod.splits)

lemma event_step_Continue:
  "event_step atof r objects m lin = Continue r' \<Longrightarrow> rd_objects r = Some objects
     \<Longrightarrow> rd_objects r' \<noteq> None"
  by (auto simp add: event_step_def Let_def
      split: list.splits option.splits res.splits prod.splits if_splits
      dest!: matrix_step_Continue)

lemma scene_step_not_Rewind: "scene_step atof r objects buffer \<noteq> Rewind r'"
  by (simp add: scene_step_def Let_def split: option.splits)

lemma scene_step_Continue:
  "scene_step atof r objects buffer = Continue r' \<Longrightarrow> rd_objects r' \<noteq> None"
  by (auto simp add: scene_step_def Let_def split: option.splits if_splits)

lemma log_step_Rewind:
  "log_step atof r lin = Rewind r' \<Longrightarrow> rd_objects r = None \<and> rd_objects r' \<noteq> None"
  by (auto simp add: log_step_def count_step_def Let_def scene_step_not_Rewind
        event_step_not_Rewind
      split: if_splits option.splits sum.splits)

lemma log_step_Continue:
  "log_step atof r lin = Continue r' \<Longrightarrow> rd_objects r \<noteq> None \<Longrightarrow> rd_objects r' \<noteq> None"
  by (auto simp add: log_step_def Let_def
      split: if_splits option.splits sum.splits
      dest: scene_step_Continue event_step_Continue)

text \<open>How the loop \<^verbatim>\<open>while (!feof(log))\<close> is left: at the end of the file or by
  \<^verbatim>\<open>break\<close>, by \<^verbatim>\<open>goto error_log\<close>, or by undefined behaviour.\<close>

datatype stop = Loop_end reader | Goto_error_log reader | Undefined_stop

text \<open>The loop itself. A log file is the list of its lines, each without its newline
  and with the flag whether it had one; \<open>file\<close> is the whole file, which the reader goes
  back to after \<^verbatim>\<open>fseek\<close>, \<open>rest\<close> the lines not yet read. The reader goes back only
  while \<^verbatim>\<open>objects\<close> is \<^verbatim>\<open>NULL\<close> and allocates it when it does, so the loop ends.\<close>

function read_log ::
  "(string \<Rightarrow> real) \<Rightarrow> (string \<times> bool) list \<Rightarrow> (string \<times> bool) list \<Rightarrow> reader \<Rightarrow> stop" where
  "read_log atof file [] r = Loop_end r"
| "read_log atof file (lin # rest) r =
     (case log_step atof r lin of
        Continue r' \<Rightarrow> read_log atof file rest r'
      | Rewind r' \<Rightarrow> read_log atof file file r'
      | Break r' \<Rightarrow> Loop_end r'
      | Error_log r' \<Rightarrow> Goto_error_log r'
      | Undefined \<Rightarrow> Undefined_stop)"
  by pat_completeness auto
termination
  apply (relation "(\<lambda>(atof, file, rest, r). if rd_objects r = None then 1 else 0::nat) <*mlex*>
                 measure (\<lambda>(atof, file, rest, r). length rest)")
    apply (simp add: wf_mlex)
   apply (auto simp: mlex_iff dest: log_step_Rewind log_step_Continue)
  done

section \<open>The result\<close>

text \<open>The loop over \<open>j\<close> that computes \<^verbatim>\<open>cond_bit\<close> of row \<open>i\<close>; a cell is read only
  while \<^verbatim>\<open>cond_bit\<close> is 0.\<close>

primrec cond_bit_loop :: "matrix \<Rightarrow> nat \<Rightarrow> nat list \<Rightarrow> bool \<Rightarrow> bool option" where
  "cond_bit_loop m i [] b = Some b"
| "cond_bit_loop m i (j # js) b =
     (if b then cond_bit_loop m i js b
      else (case mget m i j of None \<Rightarrow> None | Some v \<Rightarrow> cond_bit_loop m i js (v \<noteq> 0)))"

text \<open>The loop over the conditions: \<^verbatim>\<open>res |= (cond_bit << i)\<close>.\<close>

primrec result_loop :: "matrix \<Rightarrow> nat \<Rightarrow> nat list \<Rightarrow> uchar \<Rightarrow> uchar option" where
  "result_loop m objects_count [] res = Some res"
| "result_loop m objects_count (i # is) res =
     (case cond_bit_loop m i [0..<objects_count] False of
        None \<Rightarrow> None
      | Some b \<Rightarrow> result_loop m objects_count is (res OR push_bit i (if b then 1 else 0)))"

definition log_result :: "reader \<Rightarrow> uchar option" where
  "log_result r =
     (case rd_cond_matrix r of
        None \<Rightarrow> Some 0
      | Some m \<Rightarrow>
          result_loop m (rd_objects_count r) [0..<length (conditions (rd_task r))] 0)"

text \<open>What a call leaves behind: the returned code, the byte stored in \<^verbatim>\<open>*result\<close> and
  the state of what the call has written to (the task, or the whole checker), or a run
  with undefined behaviour. The signature string is computed from the result byte by
  \<^verbatim>\<open>generate_code\<close> on the success path only and is not part of the model.\<close>

datatype 'a outcome = Returned int uchar 'a | Crash

definition initial_reader :: "UrsulaCheckerTask \<Rightarrow> reader" where
  "initial_reader task =
     \<lparr>rd_state = CHR ''p'', rd_player_pos = \<lparr>px = 0, py = 0\<rparr>, rd_objects = None,
      rd_objects_count = 0, rd_i = 0, rd_cond_matrix = None, rd_task = task\<rparr>"

text \<open>\<^verbatim>\<open>cyberiada_ursula_log_checker_check_log\<close> from the opening of the log on, for the
  task that was found.\<close>

definition check_task ::
  "(string \<Rightarrow> real) \<Rightarrow> UrsulaCheckerTask \<Rightarrow> (string \<times> bool) list
     \<Rightarrow> UrsulaCheckerTask outcome" where
  "check_task atof task file =
     (case read_log atof file file (initial_reader task) of
        Loop_end r \<Rightarrow>
          (case log_result r of
             None \<Rightarrow> Crash
           | Some res \<Rightarrow> Returned URSULA_CHECK_NO_ERROR res (rd_task r))
      | Goto_error_log r \<Rightarrow>
          Returned URSULA_CHECK_BAD_PARAMETERS URSULA_CHECK_RESULT_ERROR (rd_task r)
      | Undefined_stop \<Rightarrow> Crash)"

text \<open>The search of the task by name in the list of the checker.\<close>

primrec find_task :: "string \<Rightarrow> UrsulaCheckerTask list \<Rightarrow> nat \<Rightarrow> nat option" where
  "find_task task_name [] k = None"
| "find_task task_name (t # ts) k =
     (if name t = task_name then Some k else find_task task_name ts (Suc k))"

text \<open>The library call on a checker, a task name and a log that can be opened. The salt
  enters the signature only.\<close>

definition cyberiada_ursula_log_checker_check_log ::
  "(string \<Rightarrow> real) \<Rightarrow> UrsulaLogCheckerData \<Rightarrow> string \<Rightarrow> (string \<times> bool) list
     \<Rightarrow> UrsulaLogCheckerData outcome" where
  "cyberiada_ursula_log_checker_check_log atof checker task_name file =
     (case find_task task_name (tasks checker) 0 of
        None \<Rightarrow> Returned URSULA_CHECK_BAD_PARAMETERS URSULA_CHECK_RESULT_ERROR checker
      | Some k \<Rightarrow>
          (case check_task atof (tasks checker ! k) file of
             Crash \<Rightarrow> Crash
           | Returned code res task' \<Rightarrow>
               Returned code res (checker\<lparr>tasks := (tasks checker)[k := task']\<rparr>)))"

text \<open>A stand-in for \<^verbatim>\<open>atof\<close> on the numerals used in the examples below: an optional
  sign and decimal digits (what follows the digits is ignored, as \<^verbatim>\<open>atof\<close> does).\<close>

definition digit_val :: "char \<Rightarrow> nat option" where
  "digit_val c =
     (let k = of_char c :: nat in if 48 \<le> k \<and> k \<le> 57 then Some (k - 48) else None)"

primrec digits_val :: "string \<Rightarrow> nat \<Rightarrow> nat" where
  "digits_val [] acc = acc"
| "digits_val (c # cs) acc =
     (case digit_val c of None \<Rightarrow> acc | Some d \<Rightarrow> digits_val cs (10 * acc + d))"

definition atof_int :: "string \<Rightarrow> real" where
  "atof_int s =
     (case dropWhile is_blank s of
        [] \<Rightarrow> 0
      | c # cs \<Rightarrow>
          if c = CHR ''-'' then - real (digits_val cs 0)
          else if c = CHR ''+'' then real (digits_val cs 0)
          else real (digits_val (c # cs) 0))"

section \<open>Observations and example data\<close>

definition ev_reader :: reader where
  "ev_reader = \<lparr>rd_state = CHR ''l'', rd_player_pos = \<lparr>px = 4, py = 5\<rparr>,
     rd_objects = Some [player_object \<lparr>px = 4, py = 5\<rparr> zero_object],
     rd_objects_count = 1, rd_i = 0,
     rd_cond_matrix = Some (replicate MAX_CONDITIONS [0]),
     rd_task = \<lparr>name = ''T'', base_objects = [], object_reqs = [],
        conditions = [Condition 1 condGameWon otPlayer [] otPlayer [] 0 None]\<rparr>\<rparr>"

definition zombie :: Object where
  "zombie = \<lparr>obj_type = otMob, obj_class = Some ''zombie'', obj_id = Some ''zombie_1'',
     pos = \<lparr>px = 5, py = 5\<rparr>, prev_pos = \<lparr>px = 5, py = 5\<rparr>, hp = 10, damage = 1,
     pos_predefined = True, valid = False\<rparr>"

definition skeleton :: Object where
  "skeleton = \<lparr>obj_type = otMob, obj_class = Some ''skeleton'', obj_id = Some ''skeleton_1'',
     pos = \<lparr>px = 7, py = 5\<rparr>, prev_pos = \<lparr>px = 6, py = 5\<rparr>, hp = 10, damage = 1,
     pos_predefined = True, valid = False\<rparr>"

definition player_req_task :: UrsulaCheckerTask where
  "player_req_task = \<lparr>name = ''T'', base_objects = [],
     object_reqs = [\<lparr>req_type = otPlayer, req_class = [], minimum = 1, limit = 1, found = 0\<rparr>],
     conditions = [Condition 1 condGameWon otPlayer [] otPlayer [] 0 None]\<rparr>"

definition scene_reader :: "UrsulaCheckerTask \<Rightarrow> reader" where
  "scene_reader task = \<lparr>rd_state = CHR ''o'', rd_player_pos = \<lparr>px = 4, py = 5\<rparr>,
     rd_objects = Some [zombie, zero_object], rd_objects_count = 2, rd_i = 1,
     rd_cond_matrix = None, rd_task = task\<rparr>"

definition one_mob_log :: "(string \<times> bool) list" where
  "one_mob_log = [(''Player Start Position (4,5)'', True),
             (''ID | Name | Object ID | Type | Position | HP | Damage'', True),
             (''zombie_1 | zombie | n | mob | (5,5) | 10 | 1'', True),
             (''---'', True),
             (''[1] zombie_1 died'', True),
             (''[2] Game Over: Win'', True)]"

definition player45 :: Object where
  "player45 = player_object \<lparr>px = 4, py = 5\<rparr> zero_object"

definition ord_task :: UrsulaCheckerTask where
  "ord_task = \<lparr>name = ''T'', base_objects = [], object_reqs = [],
     conditions = [Condition 1 condAttacked otPlayer [] otMob ''zombie'' 5 None,
                   Condition 3 condGameWon otPlayer [] otPlayer [] 0 None,
                   Condition 5 condObjectProximity otPlayer [] otMob ''zombie'' (1 / 2) None]\<rparr>"

text \<open>The matrix at the end of the loop, when the loop ends without error.\<close>

definition final_matrix :: "stop \<Rightarrow> matrix option" where
  "final_matrix st = (case st of Loop_end r \<Rightarrow> rd_cond_matrix r | _ \<Rightarrow> None)"

definition ord_final :: reader where
  "ord_final = \<lparr>rd_state = CHR ''l'', rd_player_pos = \<lparr>px = 4, py = 5\<rparr>,
     rd_objects = Some [zombie, player45],
     rd_objects_count = 2, rd_i = 1,
     rd_cond_matrix = Some [[0, 0], [1, 1], [0, 0], [0, 0], [0, 0], [0, 0], [0, 0]],
     rd_task = ord_task\<rparr>"

text \<open>What the scene check leaves of a base object \<open>b\<close>, stated from the scene: \<open>b\<close> is marked
  when it was not and some object of the scene passes the five tests.\<close>

definition validated_by :: "Object list \<Rightarrow> Object \<Rightarrow> Object" where
  "validated_by objs b =
     (if \<not> valid b \<and> (\<exists>ob \<in> set objs. base_matches b ob) then b\<lparr>valid := True\<rparr> else b)"

definition base_zombie :: Object where
  "base_zombie = \<lparr>obj_type = otMob, obj_class = Some ''zombie'', obj_id = None,
     pos = \<lparr>px = 0, py = 0\<rparr>, prev_pos = \<lparr>px = 0, py = 0\<rparr>, hp = 0, damage = 0,
     pos_predefined = False, valid = False\<rparr>"

definition two_base_task :: UrsulaCheckerTask where
  "two_base_task = \<lparr>name = ''T'', base_objects = [base_zombie, base_zombie], object_reqs = [],
     conditions = [Condition 1 condGameWon otPlayer [] otPlayer [] 0 None]\<rparr>"

text \<open>The objects at the end of the loop, when the loop ends without error.\<close>

definition final_objects :: "stop \<Rightarrow> Object list option" where
  "final_objects st = (case st of Loop_end r \<Rightarrow> rd_objects r | _ \<Rightarrow> None)"

definition two_base_validated :: UrsulaCheckerTask where
  "two_base_validated =
     two_base_task\<lparr>base_objects := [base_zombie\<lparr>valid := True\<rparr>, base_zombie\<lparr>valid := True\<rparr>]\<rparr>"

text \<open>The value of \<^verbatim>\<open>objects_count\<close> at the end of the loop, when the loop ends without
  error.\<close>

definition final_count :: "stop \<Rightarrow> nat option" where
  "final_count st = (case st of Loop_end r \<Rightarrow> Some (rd_objects_count r) | _ \<Rightarrow> None)"

definition won_task :: UrsulaCheckerTask where
  "won_task = \<lparr>name = ''T'', base_objects = [], object_reqs = [],
     conditions = [Condition 1 condGameWon otPlayer [] otPlayer [] 0 None]\<rparr>"

definition dash_log :: "(string \<times> bool) list" where
  "dash_log = [(''Player Start Position (4,5)'', True),
             (''ID | Name | Object ID | Type | Position | HP | Damage'', True),
             (''---'', True),
             (''zombie_1 | zombie | n | mob | (5,5) | 10 | 1'', True),
             (''---'', True),
             (''[2] Game Over: Win'', True)]"

definition count_reader :: reader where
  "count_reader = \<lparr>rd_state = CHR ''o'', rd_player_pos = \<lparr>px = 4, py = 5\<rparr>,
     rd_objects = None, rd_objects_count = 0, rd_i = 0, rd_cond_matrix = None,
     rd_task = won_task\<rparr>"

definition won_checker :: UrsulaLogCheckerData where
  "won_checker = \<lparr>secret = Some ''s'', tasks = [won_task]\<rparr>"

definition scene_lines :: "(string \<times> bool) list" where
  "scene_lines = [(''Player Start Position (4,5)'', True),
             (''ID | Name | Object ID | Type | Position | HP | Damage'', True),
             (''zombie_1 | zombie | n | mob | (5,5) | 10 | 1'', True),
             (''---'', True)]"

definition events_reader :: reader where
  "events_reader = \<lparr>rd_state = CHR ''l'', rd_player_pos = \<lparr>px = 4, py = 5\<rparr>,
     rd_objects = Some [zombie, player45], rd_objects_count = 2, rd_i = 1,
     rd_cond_matrix = Some (replicate MAX_CONDITIONS [0, 0]), rd_task = won_task\<rparr>"

definition jump_log :: "(string \<times> bool) list" where
  "jump_log = scene_lines @ [(''[1] zombie_1 jumps'', True), (''[2] Game Over: Win'', True)]"

definition ghost_died_log :: "(string \<times> bool) list" where
  "ghost_died_log = scene_lines @ [(''[1] ghost_7 died'', True), (''[2] Game Over: Win'', True)]"

definition ghost_position_log :: "(string \<times> bool) list" where
  "ghost_position_log =
     scene_lines @ [(''[1] ghost_7 position: (1,1);'', True), (''[2] Game Over: Win'', True)]"

definition no_comma_log :: "(string \<times> bool) list" where
  "no_comma_log =
     scene_lines @ [(''[1] Player (4 5); zombie_1 position: (5,5);'', True),
                    (''[2] Game Over: Win'', True)]"

definition one_zombie_task :: "uchar \<Rightarrow> UrsulaCheckerTask" where
  "one_zombie_task cnt = \<lparr>name = ''T'', base_objects = [],
     object_reqs = [\<lparr>req_type = otMob, req_class = ''zombie'', minimum = 1, limit = 1,
                     found = cnt\<rparr>],
     conditions = [Condition 1 condGameWon otPlayer [] otPlayer [] 0 None]\<rparr>"

definition one_zombie_checker :: "uchar \<Rightarrow> UrsulaLogCheckerData" where
  "one_zombie_checker cnt = \<lparr>secret = Some ''s'', tasks = [one_zombie_task cnt]\<rparr>"

definition destroy_task :: "string \<Rightarrow> UrsulaCheckerTask" where
  "destroy_task cls = \<lparr>name = ''T'', base_objects = [], object_reqs = [],
     conditions = [Condition 1 condDestroyed otMob cls otPlayer [] 0 None]\<rparr>"

definition zombie_died_log :: "(string \<times> bool) list" where
  "zombie_died_log = scene_lines @ [(''[1] zombie_1 died'', True)]"

definition credit_task :: UrsulaCheckerTask where
  "credit_task = \<lparr>name = ''T'', base_objects = [], object_reqs = [],
     conditions = [Condition 1 condObjectProximity otPlayer [] otMob ''zombie'' 2 None,
                   Condition 2 condGameWon otPlayer [] otPlayer [] 0 None,
                   Condition 3 condDestroyed otMob ''skeleton'' otPlayer [] 0 None]\<rparr>"

text \<open>The reader after the first \<open>num\<close> rounds of the loop \<^verbatim>\<open>while (!feof(log))\<close> of
  \<open>read_log\<close>, with the lines it has still to read; \<open>None\<close> when the loop was left
  before.\<close>

fun rounds ::
  "(string \<Rightarrow> real) \<Rightarrow> (string \<times> bool) list \<Rightarrow> nat \<Rightarrow> (string \<times> bool) list \<Rightarrow> reader
     \<Rightarrow> ((string \<times> bool) list \<times> reader) option" where
  "rounds atof file 0 rest r = Some (rest, r)"
| "rounds atof file (Suc num) [] r = None"
| "rounds atof file (Suc num) (lin # rest) r =
     (case log_step atof r lin of
        Continue r' \<Rightarrow> rounds atof file num rest r'
      | Rewind r' \<Rightarrow> rounds atof file num file r'
      | Break r' \<Rightarrow> None
      | Error_log r' \<Rightarrow> None
      | Undefined \<Rightarrow> None)"

text \<open>Whether a token names an object of the scene for the search of the attack,
  attacked and died events: the player by the word \<^verbatim>\<open>Player\<close>, any other object by its
  id.\<close>

definition known_actor :: "Object list \<Rightarrow> string \<Rightarrow> bool" where
  "known_actor objects tok =
     list_ex (\<lambda>ob. if obj_type ob = otPlayer then tok = LOG_PLAYER
                   else obj_id ob = Some tok) objects"

text \<open>The same for the first token of an entry of a position line: a token that starts
  with \<^verbatim>\<open>Player\<close> names the player, any other token the object that has it as its id.\<close>

definition known_entry_id :: "Object list \<Rightarrow> string \<Rightarrow> bool" where
  "known_entry_id objects ident =
     (if starts_with ident LOG_PLAYER then list_ex (\<lambda>ob. obj_type ob = otPlayer) objects
      else list_ex (\<lambda>ob. obj_type ob \<noteq> otPlayer \<and> obj_id ob = Some ident) objects)"

text \<open>Logs with the scene of \<open>scene_lines\<close>: a position line whose second entry has an id
  that is not in the scene, and two position lines whose coordinates are not closed
  (\<^verbatim>\<open>(4,5\<close>) or have no second number (\<^verbatim>\<open>(1,)\<close>).\<close>

definition ghost_second_log :: "(string \<times> bool) list" where
  "ghost_second_log =
     scene_lines @ [(''[1] Player (4,5); ghost_7 position: (1,1);'', True),
                    (''[2] Game Over: Win'', True)]"

definition open_coordinate_log :: "(string \<times> bool) list" where
  "open_coordinate_log =
     scene_lines @ [(''[1] Player (4,5; zombie_1 position: (5,5;'', True),
                    (''[2] Game Over: Win'', True)]"

definition empty_y_log :: "(string \<times> bool) list" where
  "empty_y_log =
     scene_lines @ [(''[1] Player (1,); zombie_1 position: (1,);'', True),
                    (''[2] Game Over: Win'', True)]"

section \<open>Lines that are not events\<close>

text \<open>
  C9. In the event-reading state (\<^verbatim>\<open>'l'\<close>, with the objects and the matrix allocated),
  a line that is empty or whose first character is not \<^verbatim>\<open>[\<close> is skipped: the round
  ends with the reader unchanged (no error, the same objects, matrix and task), and the
  loop goes on with the next line.
\<close>

theorem non_event_line_skipped:
  assumes "rd_state r = CHR ''l''" and "rd_objects r = Some objects"
    and "rd_cond_matrix r = Some m"
    and "fst lin = [] \<or> hd (fst lin) \<noteq> CHR ''[''"
  shows "log_step atof r lin = Continue r
         \<and> read_log atof file (lin # rest) r = read_log atof file rest r"
proof -
  have "event_step atof r objects m lin = Continue r"
    using assms(4) by (cases "fst lin") (simp_all add: event_step_def)
  then have "log_step atof r lin = Continue r"
    using assms(1-3) by (simp add: log_step_def)
  then show ?thesis by simp
qed

theorem non_event_line_skipped_witness:
  "log_step atof_int ev_reader (''zombie_1 moved'', True) = Continue ev_reader
   \<and> read_log atof_int [] [(''zombie_1 moved'', True)] ev_reader = Loop_end ev_reader"
  using non_event_line_skipped [of ev_reader "[player_object \<lparr>px = 4, py = 5\<rparr> zero_object]"
      "replicate MAX_CONDITIONS [0]" "(''zombie_1 moved'', True)" atof_int "[]" "[]"]
  by (simp add: ev_reader_def)

section \<open>The class filter of Moving, Damaged and Destroyed\<close>

text \<open>
  C5. The claim is that for Moving, Damaged and Destroyed an object passes the filter
  exactly when its type is the configured type and it is the player or its class equals
  the configured class. The code runs the other way: with the condition configured for
  mobs of class zombie, the death or the damage of a zombie does not match and that of a
  skeleton does; with Moving configured for class skeleton, a skeleton that has moved does
  not match. On a log in which the zombie of the scene dies, the task that asks for a
  destroyed zombie gets the result 0 and the task that asks for a destroyed skeleton gets
  the result 1.
\<close>

theorem class_filter_inverted:
  "test_condition (Condition 1 condDestroyed otMob ''zombie'' otPlayer [] 0 None)
      [zombie, skeleton] (Some zombie) 0 None 0 False = Some (False, 0)
   \<and> test_condition (Condition 1 condDestroyed otMob ''zombie'' otPlayer [] 0 None)
      [zombie, skeleton] (Some skeleton) 1 None 0 False = Some (True, 1)
   \<and> test_condition (Condition 1 condDamaged otMob ''zombie'' otPlayer [] 3 None)
      [zombie, skeleton] (Some zombie) 0 None 2 False = Some (False, 0)
   \<and> test_condition (Condition 1 condDamaged otMob ''zombie'' otPlayer [] 3 None)
      [zombie, skeleton] (Some skeleton) 1 None 2 False = Some (True, 1)
   \<and> test_condition (Condition 1 condObjectMoving otMob ''skeleton'' otPlayer [] 0 None)
      [zombie, skeleton] None 0 None 0 False = Some (False, 1)
   \<and> check_task atof_int (destroy_task ''zombie'') zombie_died_log
       = Returned URSULA_CHECK_NO_ERROR 0 (destroy_task ''zombie'')
   \<and> check_task atof_int (destroy_task ''skeleton'') zombie_died_log
       = Returned URSULA_CHECK_NO_ERROR 1 (destroy_task ''skeleton'')"
  by code_simp

section \<open>The synthesized player\<close>

text \<open>
  C6. The claim is that the player is stored with \<open>pos = prev_pos = player_start\<close>. On a
  log with the start position (4, 5) and one mob, the code stores the player last, with
  \<open>pos = (4, 5)\<close> and \<open>prev_pos = (5, 0)\<close>: the second assignment writes the y coordinate to \<^verbatim>\<open>prev_pos.x\<close>, and \<^verbatim>\<open>prev_pos.y\<close> keeps
  the 0 of \<^verbatim>\<open>memset\<close>.
\<close>

theorem player_prev_pos_differs:
  "final_objects (read_log atof_int one_mob_log one_mob_log (initial_reader won_task))
     = Some [zombie, player_object \<lparr>px = 4, py = 5\<rparr> zero_object]
   \<and> pos (player_object \<lparr>px = 4, py = 5\<rparr> zero_object) = \<lparr>px = 4, py = 5\<rparr>
   \<and> prev_pos (player_object \<lparr>px = 4, py = 5\<rparr> zero_object) = \<lparr>px = 5, py = 0\<rparr>"
  by code_simp

section \<open>A requirement on the player\<close>

lemma count_reqs_types:
  "count_reqs ob rs = Some rs' \<Longrightarrow> map req_type rs' = map req_type rs"
  by (induction rs arbitrary: rs') (auto split: if_splits option.splits)

lemma count_reqs_null_class:
  "obj_class ob = None \<Longrightarrow> \<exists>q \<in> set rs. req_type q = obj_type ob \<Longrightarrow> count_reqs ob rs = None"
  by (induction rs) (auto simp: strcmp_eq_def)

lemma check_objects_null_class:
  "ob \<in> set objs \<Longrightarrow> obj_class ob = None
     \<Longrightarrow> \<exists>q \<in> set (object_reqs task). req_type q = obj_type ob
     \<Longrightarrow> check_objects objs task = None"
proof (induction objs arbitrary: task)
  case Nil
  then show ?case by simp
next
  case (Cons a objs)
  show ?case
  proof (cases "count_reqs a (object_reqs task)")
    case None
    then show ?thesis by simp
  next
    case (Some rs)
    have a: "a \<noteq> ob"
      using Some Cons.prems(2,3) count_reqs_null_class [of ob "object_reqs task"] by auto
    have "set (map req_type rs) = set (map req_type (object_reqs task))"
      using count_reqs_types [OF Some] by simp
    then have "\<exists>q \<in> set rs. req_type q = obj_type ob"
      using Cons.prems(3) by (metis (no_types, lifting) image_iff list.set_map)
    then have "check_objects objs
        (task\<lparr>base_objects := map (mark_base a) (base_objects task), object_reqs := rs\<rparr>) = None"
      using Cons.IH [of "task\<lparr>base_objects := map (mark_base a) (base_objects task),
          object_reqs := rs\<rparr>"]
        Cons.prems(1,2) a by simp
    then show ?thesis using Some by simp
  qed
qed

text \<open>
  C10. When the task has an object requirement of type Player and the reader is at the
  delimiter line that closes the scene (with the right number of rows), the player that
  is stored has no class (\<^verbatim>\<open>NULL\<close>), the requirement loop reaches the \<^verbatim>\<open>strcmp\<close> on that
  class, and the round has no defined outcome.
\<close>

theorem player_requirement_undefined:
  assumes "\<exists>q \<in> set (object_reqs (rd_task r)). req_type q = otPlayer"
    and "starts_with buffer LOG_HLINE"
    and "rd_i r = rd_objects_count r - 1" and "rd_i r < length objects"
  shows "obj_class (player_object (rd_player_pos r) (objects ! rd_i r)) = None
         \<and> count_reqs (player_object (rd_player_pos r) (objects ! rd_i r))
              (object_reqs (rd_task r)) = None
         \<and> scene_step atof r objects buffer = Undefined"
proof -
  let ?p = "player_object (rd_player_pos r) (objects ! rd_i r)"
  let ?objs = "objects[rd_i r := ?p]"
  have cls: "obj_class ?p = None" and ty: "obj_type ?p = otPlayer"
    by (simp_all add: player_object_def)
  have mem: "?p \<in> set ?objs"
    using assms(4) by (simp add: set_update_memI)
  have "check_objects ?objs (rd_task r) = None"
    using check_objects_null_class [OF mem cls] assms(1) ty by simp
  moreover have "count_reqs ?p (object_reqs (rd_task r)) = None"
    using count_reqs_null_class [OF cls] assms(1) ty by simp
  ultimately show ?thesis
    using assms(2-4) cls by (simp add: scene_step_def Let_def)
qed

theorem player_requirement_undefined_witness:
  "scene_step atof_int (scene_reader player_req_task) [zombie, zero_object] ''---'' = Undefined"
  using player_requirement_undefined [of "scene_reader player_req_task" "''---''"
      "[zombie, zero_object]" atof_int]
  by (simp add: scene_reader_def player_req_task_def LOG_HLINE_def)

text \<open>The whole call on a log with one mob, for the task with a requirement on the
  player.\<close>

lemma player_requirement_crash:
  "check_task atof_int player_req_task one_mob_log = Crash"
  by code_simp

section \<open>The update of the matrix\<close>

lemma later_found_True:
  "later_found m js k = Some True \<Longrightarrow> \<exists>j \<in> set js. \<exists>v. mget m j k = Some v \<and> v \<noteq> 0"
  by (induction js) (auto split: option.splits if_splits)

lemma later_found_False:
  "later_found m js k = Some False \<Longrightarrow> \<forall>j \<in> set js. mget m j k = Some 0"
  by (induction js) (auto split: option.splits if_splits)

lemma mset1_mget:
  "mset1 m i k = Some m' \<Longrightarrow> mget m' a b = (if a = i \<and> b = k then Some 1 else mget m a b)"
  by (auto simp: mset1_def mget_def nth_list_update split: if_splits)

lemma credit_mget:
  assumes "credit cnt m i k = Some m'"
  shows "mget m' a b =
     (if a = i \<and> b = k \<and> (\<forall>j. i < j \<and> j < cnt \<longrightarrow> mget m j k = Some 0)
      then Some 1 else mget m a b)"
proof (cases "later_found m [Suc i..<cnt] k")
  case None
  then show ?thesis using assms by (simp add: credit_def)
next
  case (Some f)
  show ?thesis
  proof (cases f)
    case True
    then have "m' = m" using assms Some by (simp add: credit_def)
    moreover obtain j v where "i < j" "j < cnt" "mget m j k = Some v" "v \<noteq> 0"
      using later_found_True [of m "[Suc i..<cnt]" k] Some True
      by (auto simp: Suc_le_eq)
    ultimately show ?thesis by auto
  next
    case False
    then have s: "mset1 m i k = Some m'" using assms Some by (simp add: credit_def)
    have "\<forall>j. i < j \<and> j < cnt \<longrightarrow> mget m j k = Some 0"
      using later_found_False [of m "[Suc i..<cnt]" k] Some False by auto
    then show ?thesis using mset1_mget [OF s, of a b] by simp
  qed
qed

lemma credit_all_mget:
  "credit_all cnt i ks m = Some m' \<Longrightarrow>
   mget m' a b =
     (if a = i \<and> b \<in> set ks \<and> (\<forall>j. i < j \<and> j < cnt \<longrightarrow> mget m j b = Some 0)
      then Some 1 else mget m a b)"
proof (induction ks arbitrary: m)
  case Nil
  then show ?case by simp
next
  case (Cons k ks)
  from Cons.prems obtain m1 where c: "credit cnt m i k = Some m1"
    and r: "credit_all cnt i ks m1 = Some m'"
    by (auto split: option.splits)
  have later: "\<And>j c. i < j \<Longrightarrow> mget m1 j c = mget m j c"
    using credit_mget [OF c] by simp
  have "mget m' a b =
     (if a = i \<and> b \<in> set ks \<and> (\<forall>j. i < j \<and> j < cnt \<longrightarrow> mget m1 j b = Some 0)
      then Some 1 else mget m1 a b)"
    using Cons.IH [OF r] .
  then show ?case
    using credit_mget [OF c, of a b] later by auto
qed

lemma record_match_set:
  assumes "record_match task cnt m i k = Some m'" and "mget m a b = Some v" and "v \<noteq> 0"
  shows "\<exists>v'. mget m' a b = Some v' \<and> v' \<noteq> 0"
  using assms credit_mget [of "length (conditions task)" m i k m' a b]
    credit_all_mget [of "length (conditions task)" i "[0..<cnt]" m m' a b]
  by (auto simp: record_match_def split: if_splits)

lemma conditions_loop_set:
  "conditions_loop task objects primary secondary arg won is m pidx = Some m'
     \<Longrightarrow> mget m a b = Some v \<Longrightarrow> v \<noteq> 0
     \<Longrightarrow> \<exists>v'. mget m' a b = Some v' \<and> v' \<noteq> 0"
proof (induction "is" arbitrary: m pidx v)
  case Nil
  then show ?case by simp
next
  case (Cons i "is")
  from Cons.prems(1) obtain fnd k where
    t: "test_condition (conditions task ! i) objects primary pidx secondary arg won = Some (fnd, k)"
    by (auto split: option.splits)
  show ?case
  proof (cases fnd)
    case False
    then show ?thesis using Cons t by auto
  next
    case True
    with Cons.prems(1) t obtain m1 where
      r: "record_match task (length objects) m i k = Some m1"
      and l: "conditions_loop task objects primary secondary arg won is m1 k = Some m'"
      by (auto split: option.splits)
    obtain v1 where "mget m1 a b = Some v1" "v1 \<noteq> 0"
      using record_match_set [OF r Cons.prems(2,3)] by auto
    then show ?thesis using Cons.IH [OF l] by simp
  qed
qed

lemma record_match_mget:
  assumes "record_match task cnt m i k = Some m'"
  shows "mget m' a b =
     (if a = i \<and> (if ctype (conditions task ! i) = condGameWon then b < cnt else b = k)
         \<and> (\<forall>j. i < j \<and> j < length (conditions task) \<longrightarrow> mget m j b = Some 0)
      then Some 1 else mget m a b)"
proof (cases "ctype (conditions task ! i) = condGameWon")
  case True
  then have "credit_all (length (conditions task)) i [0..<cnt] m = Some m'"
    using assms by (simp add: record_match_def)
  from credit_all_mget [OF this, of a b] True show ?thesis by simp
next
  case False
  then have "credit (length (conditions task)) m i k = Some m'"
    using assms by (simp add: record_match_def)
  from credit_mget [OF this, of a b] False show ?thesis by auto
qed

lemma conditions_loop_rule:
  "cnt - lo = d \<Longrightarrow> cnt = length (conditions task)
   \<Longrightarrow> conditions_loop task objects primary secondary arg won [lo..<cnt] m pidx = Some m'
   \<Longrightarrow> \<exists>ts. tests_loop task objects primary secondary arg won [lo..<cnt] pidx = Some ts
         \<and> length ts = cnt - lo
         \<and> (\<forall>a b. mget m' a b =
               (if lo \<le> a \<and> a < cnt \<and> fst (ts ! (a - lo))
                   \<and> (if ctype (conditions task ! a) = condGameWon then b < length objects
                       else b = snd (ts ! (a - lo)))
                   \<and> (\<forall>j. a < j \<and> j < cnt \<longrightarrow> mget m j b = Some 0)
                then Some 1 else mget m a b))"
proof (induction d arbitrary: lo m pidx)
  case 0
  then have e: "[lo..<cnt] = []" and le: "cnt \<le> lo" by simp_all
  with 0 show ?case by auto
next
  case (Suc d)
  then have lt: "lo < cnt" and d: "cnt - Suc lo = d" by simp_all
  have up: "[lo..<cnt] = lo # [Suc lo..<cnt]"
    using lt by (simp add: upt_conv_Cons)
  from Suc.prems(3) obtain fnd k where
    t: "test_condition (conditions task ! lo) objects primary pidx secondary arg won
          = Some (fnd, k)"
    by (auto simp: up split: option.splits)
  obtain m1 where
    m1: "if fnd then record_match task (length objects) m lo k = Some m1 else m1 = m"
    and l: "conditions_loop task objects primary secondary arg won [Suc lo..<cnt] m1 k = Some m'"
    using Suc.prems(3) t by (auto simp: up split: option.splits if_splits)
  have c1: "mget m1 a b =
     (if a = lo \<and> fnd
         \<and> (if ctype (conditions task ! lo) = condGameWon then b < length objects else b = k)
         \<and> (\<forall>j. lo < j \<and> j < cnt \<longrightarrow> mget m j b = Some 0)
      then Some 1 else mget m a b)" for a b
  proof (cases fnd)
    case True
    then have "record_match task (length objects) m lo k = Some m1" using m1 by simp
    from record_match_mget [OF this, of a b] True Suc.prems(2) show ?thesis by simp
  next
    case False
    then show ?thesis using m1 by simp
  qed
  from Suc.IH [OF d Suc.prems(2) l] obtain ts where
    ts: "tests_loop task objects primary secondary arg won [Suc lo..<cnt] k = Some ts"
    and len: "length ts = cnt - Suc lo"
    and c2: "\<And>a b. mget m' a b =
               (if Suc lo \<le> a \<and> a < cnt \<and> fst (ts ! (a - Suc lo))
                   \<and> (if ctype (conditions task ! a) = condGameWon then b < length objects
                       else b = snd (ts ! (a - Suc lo)))
                   \<and> (\<forall>j. a < j \<and> j < cnt \<longrightarrow> mget m1 j b = Some 0)
                then Some 1 else mget m1 a b)"
    by blast
  have t2: "tests_loop task objects primary secondary arg won [lo..<cnt] pidx
              = Some ((fnd, k) # ts)"
    using t ts by (simp add: up)
  have len2: "length ((fnd, k) # ts) = cnt - lo"
    using len lt by simp
  have c3: "mget m' a b =
               (if lo \<le> a \<and> a < cnt \<and> fst (((fnd, k) # ts) ! (a - lo))
                   \<and> (if ctype (conditions task ! a) = condGameWon then b < length objects
                       else b = snd (((fnd, k) # ts) ! (a - lo)))
                   \<and> (\<forall>j. a < j \<and> j < cnt \<longrightarrow> mget m j b = Some 0)
                then Some 1 else mget m a b)" for a b
  proof (cases "a = lo")
    case True
    have eq: "mget m' a b = mget m1 a b"
      using c2 [of a b] True by simp
    have r: "((fnd, k) # ts) ! (a - lo) = (fnd, k)"
      using True by simp
    show ?thesis
      unfolding eq c1 [of a b] r using True lt by auto
  next
    case False
    have later: "(\<forall>j. a < j \<and> j < cnt \<longrightarrow> mget m1 j b = Some 0)
               = (\<forall>j. a < j \<and> j < cnt \<longrightarrow> mget m j b = Some 0)" if "lo < a"
      using that c1 by (metis less_not_refl3 less_trans)
    show ?thesis
    proof (cases "lo < a")
      case True
      then have "((fnd, k) # ts) ! (a - lo) = ts ! (a - Suc lo)"
        by (simp add: nth_Cons')
      then show ?thesis
        using c2 [of a b] c1 [of a b] later True False by auto
    next
      case f: False
      then show ?thesis using c2 [of a b] c1 [of a b] False by auto
    qed
  qed
  show ?case using t2 len2 c3 by blast
qed


lemma conditions_loop_rule0:
  assumes "conditions_loop task objects primary secondary arg won
             [0..<length (conditions task)] m pidx = Some m'"
  shows "\<exists>ts. tests_loop task objects primary secondary arg won
               [0..<length (conditions task)] pidx = Some ts
         \<and> length ts = length (conditions task)
         \<and> (\<forall>a b. mget m' a b =
               (if a < length (conditions task) \<and> fst (ts ! a)
                   \<and> (if ctype (conditions task ! a) = condGameWon then b < length objects
                       else b = snd (ts ! a))
                   \<and> (\<forall>j. a < j \<and> j < length (conditions task) \<longrightarrow> mget m j b = Some 0)
                then Some 1 else mget m a b))"
  using conditions_loop_rule [OF refl refl assms, unfolded diff_zero le0 [THEN eqTrueI] simp_thms] .

lemma tests_loop_chain:
  "cnt - lo = d
   \<Longrightarrow> tests_loop task objects primary secondary arg won [lo..<cnt] pidx = Some ts
   \<Longrightarrow> \<forall>i. i < cnt - lo \<longrightarrow>
         test_condition (conditions task ! (lo + i)) objects primary
           (if i = 0 then pidx else snd (ts ! (i - 1))) secondary arg won = Some (ts ! i)"
proof (induction d arbitrary: lo pidx ts)
  case 0
  then show ?case by simp
next
  case (Suc d)
  then have lt: "lo < cnt" and d: "cnt - Suc lo = d" by simp_all
  have up: "[lo..<cnt] = lo # [Suc lo..<cnt]"
    using lt by (simp add: upt_conv_Cons)
  from Suc.prems(2) obtain fnd k ts' where
    t: "test_condition (conditions task ! lo) objects primary pidx secondary arg won
          = Some (fnd, k)"
    and ts': "tests_loop task objects primary secondary arg won [Suc lo..<cnt] k = Some ts'"
    and ts: "ts = (fnd, k) # ts'"
    by (auto simp: up split: option.splits)
  have ih: "\<And>i. i < cnt - Suc lo \<Longrightarrow>
         test_condition (conditions task ! (Suc lo + i)) objects primary
           (if i = 0 then k else snd (ts' ! (i - 1))) secondary arg won = Some (ts' ! i)"
    using Suc.IH [OF d ts'] by blast
  show ?case
  proof (intro allI impI)
    fix i assume i: "i < cnt - lo"
    show "test_condition (conditions task ! (lo + i)) objects primary
           (if i = 0 then pidx else snd (ts ! (i - 1))) secondary arg won = Some (ts ! i)"
    proof (cases i)
      case 0
      then show ?thesis using t ts by simp
    next
      case (Suc i')
      have "i' < cnt - Suc lo" using i Suc by simp
      from ih [OF this] have
        "test_condition (conditions task ! (Suc lo + i')) objects primary
           (if i' = 0 then k else snd (ts' ! (i' - 1))) secondary arg won = Some (ts' ! i')" .
      moreover have "snd (ts ! (i - 1)) = (if i' = 0 then k else snd (ts' ! (i' - 1)))"
        using Suc ts by (cases i') simp_all
      ultimately show ?thesis using Suc ts by simp
    qed
  qed
qed

text \<open>
  C3. For one call of \<^verbatim>\<open>cyberiada_test_all_conditions\<close> that starts with the matrix \<open>m\<close>
  and ends with \<open>m'\<close>, let \<open>ts ! i\<close> be the outcome of the test of condition \<open>i\<close> (the
  returned value and the actor left in \<^verbatim>\<open>primary_index\<close>, each test starting with the
  actor the one before has left). Cell \<open>(i, b)\<close> of \<open>m'\<close> is 1 when condition \<open>i\<close> has
  tested as matched, \<open>b\<close> is an object index (kind GameWon) or the actor of the test (any
  other kind), and every later condition \<open>j > i\<close> has a 0 in column \<open>b\<close> of \<open>m\<close>; every
  other cell is the one of \<open>m\<close>. A cell that was set stays set.
\<close>

theorem matrix_update_rule:
  assumes "test_all_conditions task objects m primary pidx secondary arg won = Some m'"
  shows "\<exists>ts. length ts = length (conditions task)
       \<and> (\<forall>i. i < length (conditions task) \<longrightarrow>
             test_condition (conditions task ! i) objects primary
               (if i = 0 then pidx else snd (ts ! (i - 1))) secondary arg won = Some (ts ! i))
       \<and> (\<forall>i b. mget m' i b =
             (if i < length (conditions task) \<and> fst (ts ! i)
                 \<and> (if ctype (conditions task ! i) = condGameWon then b < length objects
                     else b = snd (ts ! i))
                 \<and> (\<forall>j. i < j \<and> j < length (conditions task) \<longrightarrow> mget m j b = Some 0)
              then Some 1 else mget m i b))
       \<and> (\<forall>i b v. mget m i b = Some v \<and> v \<noteq> 0 \<longrightarrow> (\<exists>v'. mget m' i b = Some v' \<and> v' \<noteq> 0))"
proof -
  let ?cnt = "length (conditions task)"
  have l: "conditions_loop task objects primary secondary arg won [0..<?cnt] m pidx = Some m'"
    using assms by (simp add: test_all_conditions_def)
  from conditions_loop_rule0 [OF l] obtain ts where
    ts: "tests_loop task objects primary secondary arg won [0..<?cnt] pidx = Some ts"
    and len: "length ts = ?cnt"
    and c: "\<forall>a b. mget m' a b =
               (if a < ?cnt \<and> fst (ts ! a)
                   \<and> (if ctype (conditions task ! a) = condGameWon then b < length objects
                       else b = snd (ts ! a))
                   \<and> (\<forall>j. a < j \<and> j < ?cnt \<longrightarrow> mget m j b = Some 0)
                then Some 1 else mget m a b)"
    by (elim exE conjE)
  have ch: "\<forall>i. i < ?cnt \<longrightarrow>
             test_condition (conditions task ! i) objects primary
               (if i = 0 then pidx else snd (ts ! (i - 1))) secondary arg won = Some (ts ! i)"
    using tests_loop_chain [OF refl ts] by simp
  have s: "\<forall>i b v. mget m i b = Some v \<and> v \<noteq> 0 \<longrightarrow> (\<exists>v'. mget m' i b = Some v' \<and> v' \<noteq> 0)"
    using conditions_loop_set [OF l] by blast
  have c': "\<forall>i b. mget m' i b =
             (if i < ?cnt \<and> fst (ts ! i)
                 \<and> (if ctype (conditions task ! i) = condGameWon then b < length objects
                     else b = snd (ts ! i))
                 \<and> (\<forall>j. i < j \<and> j < ?cnt \<longrightarrow> mget m j b = Some 0)
              then Some 1 else mget m i b)"
    using c .
  from len ch c' s show ?thesis
    by - (rule exI [of _ ts], intro conjI, assumption+)
qed

theorem matrix_update_rule_witness:
  "test_all_conditions credit_task [zombie, player45]
      (replicate MAX_CONDITIONS [0, 0]) (Some zombie) 0 None 0 False
     = Some [[0, 1], [0, 0], [0, 1], [0, 0], [0, 0], [0, 0], [0, 0]]
   \<and> test_all_conditions credit_task [zombie, player45]
      [[0, 1], [0, 0], [0, 1], [0, 0], [0, 0], [0, 0], [0, 0]] None 0 None 0 True
     = Some [[0, 1], [1, 0], [0, 1], [0, 0], [0, 0], [0, 0], [0, 0]]
   \<and> final_matrix (read_log atof_int one_mob_log one_mob_log (initial_reader credit_task))
     = Some [[0, 1], [1, 0], [0, 1], [0, 0], [0, 0], [0, 0], [0, 0]]
   \<and> (\<exists>ts. length ts = length (conditions credit_task)
       \<and> (\<forall>i. i < length (conditions credit_task) \<longrightarrow>
             test_condition (conditions credit_task ! i) [zombie, player45] None
               (if i = 0 then 0 else snd (ts ! (i - 1))) None 0 True = Some (ts ! i))
       \<and> (\<forall>i b. mget [[0, 1], [1, 0], [0, 1], [0, 0], [0, 0], [0, 0], [0, 0]] i b =
             (if i < length (conditions credit_task) \<and> fst (ts ! i)
                 \<and> (if ctype (conditions credit_task ! i) = condGameWon
                     then b < length [zombie, player45] else b = snd (ts ! i))
                 \<and> (\<forall>j. i < j \<and> j < length (conditions credit_task) \<longrightarrow>
                       mget [[0, 1], [0, 0], [0, 1], [0, 0], [0, 0], [0, 0], [0, 0]] j b = Some 0)
              then Some 1
              else mget [[0, 1], [0, 0], [0, 1], [0, 0], [0, 0], [0, 0], [0, 0]] i b))
       \<and> (\<forall>i b v. mget [[0, 1], [0, 0], [0, 1], [0, 0], [0, 0], [0, 0], [0, 0]] i b = Some v
               \<and> v \<noteq> 0 \<longrightarrow>
             (\<exists>v'. mget [[0, 1], [1, 0], [0, 1], [0, 0], [0, 0], [0, 0], [0, 0]] i b = Some v'
                \<and> v' \<noteq> 0)))"
proof -
  have h1: "test_all_conditions credit_task [zombie, player45]
      (replicate MAX_CONDITIONS [0, 0]) (Some zombie) 0 None 0 False
     = Some [[0, 1], [0, 0], [0, 1], [0, 0], [0, 0], [0, 0], [0, 0]]"
    by code_simp
  have h2: "test_all_conditions credit_task [zombie, player45]
      [[0, 1], [0, 0], [0, 1], [0, 0], [0, 0], [0, 0], [0, 0]] None 0 None 0 True
     = Some [[0, 1], [1, 0], [0, 1], [0, 0], [0, 0], [0, 0], [0, 0]]"
    by code_simp
  have h3: "final_matrix (read_log atof_int one_mob_log one_mob_log (initial_reader credit_task))
     = Some [[0, 1], [1, 0], [0, 1], [0, 0], [0, 0], [0, 0], [0, 0]]"
    by code_simp
  note e = matrix_update_rule [OF h2]
  from h1 h2 h3 e show ?thesis
    by - (intro conjI, assumption+)
qed


section \<open>The result byte\<close>

lemma cond_bit_loop_iff:
  "cond_bit_loop m i js b = Some r
     \<Longrightarrow> r = (b \<or> (\<exists>j \<in> set js. \<exists>v. mget m i j = Some v \<and> v \<noteq> 0))"
  by (induction js arbitrary: b) (auto split: if_splits option.splits)

lemma bit_or_cond_bit:
  "bit ((res :: uchar) OR push_bit i (if b then 1 else 0)) k = (bit res k \<or> (b \<and> k = i \<and> i < 8))"
  by (auto simp: bit_or_iff bit_push_bit_iff bit_1_iff)

lemma result_loop_bits:
  "result_loop m cnt is res = Some r
     \<Longrightarrow> bit r k = (bit res k
            \<or> (k \<in> set is \<and> k < 8 \<and> (\<exists>j < cnt. \<exists>v. mget m k j = Some v \<and> v \<noteq> 0)))"
proof (induction "is" arbitrary: res)
  case Nil
  then show ?case by simp
next
  case (Cons i "is")
  from Cons.prems obtain b where
    c: "cond_bit_loop m i [0..<cnt] False = Some b"
    and l: "result_loop m cnt is (res OR push_bit i (if b then 1 else 0)) = Some r"
    by (auto split: option.splits)
  have b: "b = (\<exists>j < cnt. \<exists>v. mget m i j = Some v \<and> v \<noteq> 0)"
    using cond_bit_loop_iff [OF c] by auto
  show ?case
    using Cons.IH [OF l] b by (auto simp: bit_or_cond_bit)
qed

text \<open>
  C2. The claim is that bit \<open>i\<close> of the result stands for the condition of ordinal
  \<open>i + 1\<close>. The code numbers the bits by the index of the condition in the array of the
  task and never reads the ordinal. As amended: when the loop over the log ends without
  error and the matrix is allocated, the call returns no error, and bit \<open>i\<close> of the
  result byte is 1 exactly when \<open>i\<close> is the index of a condition of the task and row
  \<open>i\<close> of the matrix has a cell set for at least one object. When the ordinals of the
  task are 1, 2, ... without a gap, this is the condition of ordinal \<open>i + 1\<close>, as claimed.
\<close>

theorem result_bits_by_index:
  assumes "read_log atof file file (initial_reader task) = Loop_end r"
    and "rd_cond_matrix r = Some m" and "log_result r = Some res"
  shows "check_task atof task file = Returned URSULA_CHECK_NO_ERROR res (rd_task r)
       \<and> (\<forall>i. bit res i =
            (i < length (conditions (rd_task r)) \<and> i < 8
             \<and> (\<exists>k < rd_objects_count r. \<exists>v. mget m i k = Some v \<and> v \<noteq> 0)))
       \<and> ((\<forall>c < length (conditions (rd_task r)).
              unat (n (conditions (rd_task r) ! c)) = Suc c) \<longrightarrow>
           (\<forall>i. bit res i =
              (\<exists>c < length (conditions (rd_task r)).
                 unat (n (conditions (rd_task r) ! c)) = Suc i \<and> c < 8
                 \<and> (\<exists>k < rd_objects_count r. \<exists>v. mget m c k = Some v \<and> v \<noteq> 0))))"
proof -
  have "result_loop m (rd_objects_count r) [0..<length (conditions (rd_task r))] 0 = Some res"
    using assms(2,3) by (simp add: log_result_def)
  from result_loop_bits [OF this]
  have b: "\<forall>i. bit res i =
            (i < length (conditions (rd_task r)) \<and> i < 8
             \<and> (\<exists>k < rd_objects_count r. \<exists>v. mget m i k = Some v \<and> v \<noteq> 0))"
    by simp
  have c: "check_task atof task file = Returned URSULA_CHECK_NO_ERROR res (rd_task r)"
    using assms(1,3) by (simp add: check_task_def)
  have o: "bit res i =
              (\<exists>c < length (conditions (rd_task r)).
                 unat (n (conditions (rd_task r) ! c)) = Suc i \<and> c < 8
                 \<and> (\<exists>k < rd_objects_count r. \<exists>v. mget m c k = Some v \<and> v \<noteq> 0))"
    if "\<forall>c < length (conditions (rd_task r)). unat (n (conditions (rd_task r) ! c)) = Suc c"
    for i
    using that b by (metis nat.inject)
  show ?thesis using b c o by blast
qed

text \<open>
  The task has the ordinals 1, 3 and 5. The log ends with a won game, which satisfies
  the GameWon condition of ordinal 3 (index 1) for both objects. The result is 2: bit 1
  is set although no condition has the ordinal 2, and bit 2 is clear although the condition
  of ordinal 3 is satisfied.
\<close>

theorem result_bit_ordinal_counterexample:
  "check_task atof_int ord_task one_mob_log = Returned URSULA_CHECK_NO_ERROR 2 ord_task
   \<and> final_matrix (read_log atof_int one_mob_log one_mob_log (initial_reader ord_task))
       = Some [[0, 0], [1, 1], [0, 0], [0, 0], [0, 0], [0, 0], [0, 0]]
   \<and> map n (conditions ord_task) = [1, 3, 5]
   \<and> \<not> bit (2 :: uchar) (3 - 1 :: nat)
   \<and> bit (2 :: uchar) (2 - 1 :: nat)"
  by code_simp

theorem result_bits_by_index_witness:
  "check_task atof_int ord_task one_mob_log = Returned URSULA_CHECK_NO_ERROR 2 ord_task
   \<and> (\<forall>i. bit (2 :: uchar) i =
         (i < length (conditions ord_task) \<and> i < 8
          \<and> (\<exists>k < 2. \<exists>v. mget [[0, 0], [1, 1], [0, 0], [0, 0], [0, 0], [0, 0], [0, 0]] i k
                             = Some v \<and> v \<noteq> 0)))"
proof -
  have h1: "read_log atof_int one_mob_log one_mob_log (initial_reader ord_task)
              = Loop_end ord_final"
    by code_simp
  have h2: "rd_cond_matrix ord_final
              = Some [[0, 0], [1, 1], [0, 0], [0, 0], [0, 0], [0, 0], [0, 0]]"
    by (simp add: ord_final_def)
  have h3: "log_result ord_final = Some 2"
    by code_simp
  show ?thesis
    using result_bits_by_index [OF h1 h2 h3] by (simp add: ord_final_def)
qed

section \<open>The scene check\<close>

lemma validated_by_Cons: "validated_by objs (mark_base a b) = validated_by (a # objs) b"
  by (auto simp: validated_by_def mark_base_def)

lemma check_objects_bases:
  "check_objects objs task = Some task'
     \<Longrightarrow> base_objects task' = map (validated_by objs) (base_objects task)"
proof (induction objs arbitrary: task)
  case Nil
  then show ?case by (simp add: validated_by_def)
next
  case (Cons a objs)
  from Cons.prems obtain rs where
    c: "check_objects objs
          (task\<lparr>base_objects := map (mark_base a) (base_objects task), object_reqs := rs\<rparr>)
        = Some task'"
    by (auto split: option.splits)
  show ?case
    using Cons.IH [OF c] by (simp add: validated_by_Cons)
qed

text \<open>
  C7. The claim is that a scene object can validate at most one base object, so that two
  identical base objects need two matching scene objects. The code has no such
  bookkeeping: the loop marks every base object that a scene object matches and goes on.
  As amended: at the delimiter line that closes the scene (with the right number of rows,
  a defined requirement count, and no base object marked beforehand), the scene is accepted
  exactly when every base object is matched by some object of the scene (the same object
  may serve several base objects) and every requirement has its count within
  \<open>minimum\<close> and \<open>limit\<close>; otherwise the round ends in \<^verbatim>\<open>goto error_log\<close>.
\<close>

theorem scene_check_no_consumption:
  assumes "starts_with buffer LOG_HLINE"
    and "rd_i r = rd_objects_count r - 1" and "rd_i r < length objects"
    and "check_objects (objects[rd_i r := player_object (rd_player_pos r) (objects ! rd_i r)])
           (rd_task r) = Some task'"
    and "\<forall>b \<in> set (base_objects (rd_task r)). \<not> valid b"
  shows "(\<exists>r'. scene_step atof r objects buffer = Continue r') =
           ((\<forall>b \<in> set (base_objects (rd_task r)).
               \<exists>ob \<in> set (objects[rd_i r := player_object (rd_player_pos r) (objects ! rd_i r)]).
                 base_matches b ob)
            \<and> (\<forall>q \<in> set (object_reqs task'). minimum q \<le> found q \<and> found q \<le> limit q))
       \<and> (\<exists>r'. scene_step atof r objects buffer = Error_log r') =
           (\<not> (\<exists>r'. scene_step atof r objects buffer = Continue r'))"
proof -
  let ?objs = "objects[rd_i r := player_object (rd_player_pos r) (objects ! rd_i r)]"
  have b: "base_objects task' = map (validated_by ?objs) (base_objects (rd_task r))"
    using check_objects_bases [OF assms(4)] .
  have v: "list_ex (\<lambda>b. \<not> valid b) (base_objects task') =
           (\<exists>b \<in> set (base_objects (rd_task r)). \<forall>ob \<in> set ?objs. \<not> base_matches b ob)"
    using assms(5) by (auto simp: b list_ex_iff validated_by_def)
  have q: "list_ex (\<lambda>q. found q < minimum q \<or> found q > limit q) (object_reqs task') =
           (\<not> (\<forall>q \<in> set (object_reqs task'). minimum q \<le> found q \<and> found q \<le> limit q))"
    by (auto simp: list_ex_iff not_le)
  have c: "(\<exists>r'. scene_step atof r objects buffer = Continue r') =
           ((\<forall>b \<in> set (base_objects (rd_task r)). \<exists>ob \<in> set ?objs. base_matches b ob)
            \<and> (\<forall>q \<in> set (object_reqs task'). minimum q \<le> found q \<and> found q \<le> limit q))"
    using assms(1-4) v q by (auto simp: scene_step_def Let_def)
  have e: "(\<exists>r'. scene_step atof r objects buffer = Error_log r') =
           (\<not> (\<exists>r'. scene_step atof r objects buffer = Continue r'))"
    using assms(1-4) by (auto simp: scene_step_def Let_def)
  show ?thesis using c e by blast
qed

theorem scene_check_no_consumption_witness:
  "\<exists>r'. scene_step atof_int (scene_reader two_base_task) [zombie, zero_object] ''---''
          = Continue r'"
proof -
  have h1: "starts_with ''---'' LOG_HLINE"
    by (simp add: LOG_HLINE_def)
  have h2: "rd_i (scene_reader two_base_task) = rd_objects_count (scene_reader two_base_task) - 1"
    and h3: "rd_i (scene_reader two_base_task) < length [zombie, zero_object]"
    by (simp_all add: scene_reader_def)
  have h4: "check_objects
      ([zombie, zero_object][rd_i (scene_reader two_base_task) :=
         player_object (rd_player_pos (scene_reader two_base_task))
           ([zombie, zero_object] ! rd_i (scene_reader two_base_task))])
      (rd_task (scene_reader two_base_task)) = Some two_base_validated"
    by code_simp
  have h5: "\<forall>b \<in> set (base_objects (rd_task (scene_reader two_base_task))). \<not> valid b"
    by (simp add: scene_reader_def two_base_task_def base_zombie_def)
  have m: "base_matches base_zombie zombie"
    by code_simp
  show ?thesis
    using scene_check_no_consumption [OF h1 h2 h3 h4 h5, of atof_int] m
    by (simp add: scene_reader_def two_base_task_def two_base_validated_def)
qed

text \<open>
  The task has two identical base objects (a mob of class zombie) and the scene has one
  zombie and the player: the call returns no error, with both base objects marked.
\<close>

theorem one_object_validates_two_bases_counterexample:
  "check_task atof_int two_base_task one_mob_log
     = Returned URSULA_CHECK_NO_ERROR 1 two_base_validated
   \<and> URSULA_CHECK_NO_ERROR \<noteq> URSULA_CHECK_BAD_PARAMETERS
   \<and> base_objects two_base_task = [base_zombie, base_zombie]
   \<and> final_objects (read_log atof_int one_mob_log one_mob_log (initial_reader two_base_task))
       = Some [zombie, player45]
   \<and> filter (base_matches base_zombie) [zombie, player45] = [zombie]"
  by code_simp

section \<open>The two passes over the scene\<close>

lemma count_rows:
  "rd_state r = CHR ''o'' \<Longrightarrow> rd_objects r = None
     \<Longrightarrow> \<forall>l \<in> set rows. \<not> starts_with (fst l) LOG_HLINE
     \<Longrightarrow> starts_with (fst h) LOG_HLINE
     \<Longrightarrow> read_log atof file (rows @ h # rest) r =
         read_log atof file file
           (r\<lparr>rd_objects_count := rd_objects_count r + length rows + 1,
              rd_state := CHR ''s'',
              rd_objects := Some (replicate (rd_objects_count r + length rows + 1) zero_object),
              rd_i := 0\<rparr>)"
proof (induction rows arbitrary: r)
  case Nil
  then show ?case by (simp add: log_step_def count_step_def)
next
  case (Cons l rows)
  have s: "log_step atof r l = Continue (r\<lparr>rd_objects_count := Suc (rd_objects_count r)\<rparr>)"
    using Cons.prems by (simp add: log_step_def count_step_def)
  show ?case
    using Cons.IH [of "r\<lparr>rd_objects_count := Suc (rd_objects_count r)\<rparr>"] Cons.prems s
    by simp
qed

lemma scene_row_step:
  assumes "rd_state r = CHR ''o''" and "rd_objects r = Some objs"
    and "\<not> starts_with (fst l) LOG_HLINE"
  shows "(\<exists>r'. log_step atof r l = Error_log r') \<or> log_step atof r l = Undefined
       \<or> (\<exists>r' objs'. log_step atof r l = Continue r' \<and> rd_state r' = CHR ''o''
             \<and> rd_objects r' = Some objs' \<and> length objs' = length objs
             \<and> rd_i r' = Suc (rd_i r) \<and> rd_objects_count r' = rd_objects_count r)"
  using assms by (auto simp: log_step_def scene_step_def split: option.splits)

lemma parse_rows:
  "rd_state r = CHR ''o'' \<Longrightarrow> rd_objects r = Some objs
     \<Longrightarrow> \<forall>l \<in> set rows. \<not> starts_with (fst l) LOG_HLINE
     \<Longrightarrow> (\<exists>r'. read_log atof file (rows @ tl_lines) r = Goto_error_log r')
       \<or> read_log atof file (rows @ tl_lines) r = Undefined_stop
       \<or> (\<exists>r' objs'. read_log atof file (rows @ tl_lines) r = read_log atof file tl_lines r'
             \<and> rd_state r' = CHR ''o'' \<and> rd_objects r' = Some objs'
             \<and> length objs' = length objs \<and> rd_i r' = rd_i r + length rows
             \<and> rd_objects_count r' = rd_objects_count r)"
proof (induction rows arbitrary: r objs)
  case Nil
  then show ?case by (intro disjI2 exI [of _ r] exI [of _ objs]) simp
next
  case (Cons l rows)
  have nl: "\<not> starts_with (fst l) LOG_HLINE" using Cons.prems(3) by simp
  from scene_row_step [OF Cons.prems(1,2) nl, of atof]
  consider (err) r' where "log_step atof r l = Error_log r'"
    | (und) "log_step atof r l = Undefined"
    | (ok) r' objs' where "log_step atof r l = Continue r'" "rd_state r' = CHR ''o''"
        "rd_objects r' = Some objs'" "length objs' = length objs"
        "rd_i r' = Suc (rd_i r)" "rd_objects_count r' = rd_objects_count r"
    by blast
  then show ?case
  proof cases
    case err
    then show ?thesis by simp
  next
    case und
    then show ?thesis by simp
  next
    case ok
    from Cons.IH [OF ok(2,3)] Cons.prems(3) ok(1,4,5,6)
    show ?thesis by auto
  qed
qed

lemma hline_wrong_count:
  assumes "rd_state r = CHR ''o''" and "rd_objects r = Some objs"
    and "starts_with (fst h) LOG_HLINE" and "rd_i r \<noteq> rd_objects_count r - 1"
  shows "log_step atof r h = Error_log r"
  using assms by (simp add: log_step_def scene_step_def)

lemma hline_player_slot:
  assumes "starts_with buffer LOG_HLINE" and "scene_step atof r objs buffer = Continue r'"
  shows "rd_i r = rd_objects_count r - 1
       \<and> rd_objects r' = Some (objs[rd_i r := player_object (rd_player_pos r) (objs ! rd_i r)])
       \<and> rd_state r' = CHR ''l''"
  using assms by (auto simp: scene_step_def Let_def split: if_splits option.splits)

text \<open>
  C8. The claim is that the rows are counted up to the second \<^verbatim>\<open>---\<close> line. The code
  stops at the first line that starts with \<^verbatim>\<open>---\<close> after the header. As amended, for
  lines \<open>rows\<close> none of which starts with \<^verbatim>\<open>---\<close>, followed by a line \<open>h\<close> that does:
  in state \<^verbatim>\<open>'o'\<close> with \<^verbatim>\<open>objects\<close> not allocated, the reader counts the rows and \<open>h\<close>,
  allocates that many zeroed objects (the number of rows plus one) and starts again at the
  beginning of the file in state \<^verbatim>\<open>'s'\<close>; in state \<^verbatim>\<open>'o'\<close> with \<^verbatim>\<open>objects\<close> allocated and
  no row parsed yet, the scene is refused (or the run is undefined) unless the number of
  rows is \<^verbatim>\<open>objects_count - 1\<close>; and when the line \<open>h\<close> is accepted, the row index is
  \<^verbatim>\<open>objects_count - 1\<close> and the player is stored in that slot.
\<close>

theorem scene_count_and_reread:
  assumes "\<forall>l \<in> set rows. \<not> starts_with (fst l) LOG_HLINE"
    and "starts_with (fst h) LOG_HLINE"
  shows "(rd_state r = CHR ''o'' \<and> rd_objects r = None \<longrightarrow>
            read_log atof file (rows @ h # rest) r =
              read_log atof file file
                (r\<lparr>rd_objects_count := rd_objects_count r + length rows + 1,
                   rd_state := CHR ''s'',
                   rd_objects :=
                     Some (replicate (rd_objects_count r + length rows + 1) zero_object),
                   rd_i := 0\<rparr>))
       \<and> (rd_state r = CHR ''o'' \<and> rd_objects r = Some objs \<and> rd_i r = 0
            \<and> length rows \<noteq> rd_objects_count r - 1 \<longrightarrow>
            (\<exists>r'. read_log atof file (rows @ h # rest) r = Goto_error_log r')
            \<or> read_log atof file (rows @ h # rest) r = Undefined_stop)
       \<and> (\<forall>r'. scene_step atof r objs (fst h) = Continue r' \<longrightarrow>
            rd_i r = rd_objects_count r - 1
            \<and> rd_objects r' =
                Some (objs[rd_i r := player_object (rd_player_pos r) (objs ! rd_i r)])
            \<and> rd_state r' = CHR ''l'')"
proof -
  have a: "rd_state r = CHR ''o'' \<and> rd_objects r = None \<longrightarrow>
            read_log atof file (rows @ h # rest) r =
              read_log atof file file
                (r\<lparr>rd_objects_count := rd_objects_count r + length rows + 1,
                   rd_state := CHR ''s'',
                   rd_objects :=
                     Some (replicate (rd_objects_count r + length rows + 1) zero_object),
                   rd_i := 0\<rparr>)"
    using count_rows [of r rows h atof "file" rest] assms by blast
  have b: "(\<exists>r'. read_log atof file (rows @ h # rest) r = Goto_error_log r')
            \<or> read_log atof file (rows @ h # rest) r = Undefined_stop"
    if st: "rd_state r = CHR ''o''" and ob: "rd_objects r = Some objs" and i0: "rd_i r = 0"
      and ne: "length rows \<noteq> rd_objects_count r - 1"
  proof -
    from parse_rows [OF st ob assms(1), of atof "file" "h # rest"]
    consider (err) r' where "read_log atof file (rows @ h # rest) r = Goto_error_log r'"
      | (und) "read_log atof file (rows @ h # rest) r = Undefined_stop"
      | (ok) r' objs' where
          "read_log atof file (rows @ h # rest) r = read_log atof file (h # rest) r'"
          "rd_state r' = CHR ''o''" "rd_objects r' = Some objs'"
          "rd_i r' = rd_i r + length rows" "rd_objects_count r' = rd_objects_count r"
      by blast
    then show ?thesis
    proof cases
      case err
      then show ?thesis by blast
    next
      case und
      then show ?thesis by blast
    next
      case ok
      have "rd_i r' \<noteq> rd_objects_count r' - 1"
        using ok(4,5) i0 ne by simp
      from hline_wrong_count [OF ok(2,3) assms(2) this, of atof]
      show ?thesis using ok(1) by simp
    qed
  qed
  have c: "\<forall>r'. scene_step atof r objs (fst h) = Continue r' \<longrightarrow>
            rd_i r = rd_objects_count r - 1
            \<and> rd_objects r' =
                Some (objs[rd_i r := player_object (rd_player_pos r) (objs ! rd_i r)])
            \<and> rd_state r' = CHR ''l''"
    using hline_player_slot [OF assms(2)] by blast
  show ?thesis using a b c by blast
qed


theorem scene_count_and_reread_witness:
  "read_log atof_int one_mob_log
     ([(''zombie_1 | zombie | n | mob | (5,5) | 10 | 1'', True)] @ (''---'', True)
        # [(''[1] zombie_1 died'', True), (''[2] Game Over: Win'', True)])
     count_reader =
   read_log atof_int one_mob_log one_mob_log
     (count_reader
        \<lparr>rd_objects_count := rd_objects_count count_reader
            + length [(''zombie_1 | zombie | n | mob | (5,5) | 10 | 1'', True)] + 1,
         rd_state := CHR ''s'',
         rd_objects := Some (replicate (rd_objects_count count_reader
            + length [(''zombie_1 | zombie | n | mob | (5,5) | 10 | 1'', True)] + 1) zero_object),
         rd_i := 0\<rparr>)"
proof -
  have h1: "\<forall>l \<in> set [(''zombie_1 | zombie | n | mob | (5,5) | 10 | 1'', True)].
              \<not> starts_with (fst l) LOG_HLINE"
    by (simp add: LOG_HLINE_def)
  have h2: "starts_with (fst (''---'', True)) LOG_HLINE"
    by (simp add: LOG_HLINE_def)
  have h3: "rd_state count_reader = CHR ''o'' \<and> rd_objects count_reader = None"
    by (simp add: count_reader_def)
  show ?thesis
    using scene_count_and_reread [OF h1 h2, of count_reader atof_int one_mob_log
        "[(''[1] zombie_1 died'', True), (''[2] Game Over: Win'', True)]"] h3
    by blast
qed

text \<open>
  A log with a \<^verbatim>\<open>---\<close> line between the header and the row of a zombie, and a second
  one after the row: one object is allocated, the scene holds the player alone, and the
  row and the second delimiter are read as lines of the event section.
\<close>

theorem first_delimiter_closes_scene_counterexample:
  "final_count (read_log atof_int dash_log dash_log (initial_reader won_task)) = Some 1
   \<and> final_objects (read_log atof_int dash_log dash_log (initial_reader won_task))
       = Some [player45]
   \<and> check_task atof_int won_task dash_log = Returned URSULA_CHECK_NO_ERROR 1 won_task"
  by code_simp

section \<open>The error code of the event section\<close>

lemma split_first_None_iff: "(split_first c s = None) = (c \<notin> set s)"
  by (induction s) (auto split: option.splits)

lemma set_strip_tail: "set (strip_tail P xs) \<subseteq> set xs"
  by (cases xs) (auto simp: strip_tail_def dest: set_dropWhileD)

lemma parse_coordinates_no_comma:
  assumes "CHR '','' \<notin> set s"
  shows "parse_coordinates atof s = Inl URSULA_CHECK_FORMAT_ERROR"
proof -
  let ?s1 = "dropWhile (\<lambda>c. is_blank c \<or> c = CHR ''('') s"
  have "CHR '','' \<notin> set ?s1"
    using assms set_dropWhileD by fastforce
  then have "CHR '','' \<notin> set (strip_tail (\<lambda>c. is_blank c \<or> c = CHR '')'') ?s1)"
    using set_strip_tail [of "\<lambda>c. is_blank c \<or> c = CHR '')''" ?s1] by blast
  then show ?thesis
    by (simp add: parse_coordinates_def Let_def split_first_None_iff [symmetric])
qed

text \<open>What \<open>split_first\<close> and \<open>dropWhile\<close> do on a string of which a prefix is known.\<close>

lemma split_first_Some: "split_first c s = Some (u, v) \<Longrightarrow> s = u @ c # v \<and> c \<notin> set u"
  by (induction s arbitrary: u) (auto split: if_splits option.splits)

lemma split_first_append: "c \<notin> set xs \<Longrightarrow> split_first c (xs @ c # ys) = Some (xs, ys)"
  by (induction xs) auto

lemma dropWhile_append_stop:
  "\<not> P y \<Longrightarrow> dropWhile P (xs @ y # ys) = dropWhile P xs @ y # ys"
  by (induction xs) auto

lemma in_set_dropWhile: "x \<in> set xs \<Longrightarrow> \<not> P x \<Longrightarrow> x \<in> set (dropWhile P xs)"
  by (induction xs) auto

lemma in_set_strip_tail: "x \<in> set xs \<Longrightarrow> \<not> P x \<Longrightarrow> x \<in> set (strip_tail P xs)"
  by (cases xs) (auto simp: strip_tail_def in_set_dropWhile)

text \<open>\<^verbatim>\<open>parse_coordinates\<close> takes every string that has a comma: the parentheses are
  skipped where they are and not asked for.\<close>

lemma parse_coordinates_comma:
  assumes "CHR '','' \<in> set s"
  shows "\<exists>p. parse_coordinates atof s = Inr p"
proof -
  let ?s1 = "dropWhile (\<lambda>c. is_blank c \<or> c = CHR ''('') s"
  let ?s2 = "strip_tail (\<lambda>c. is_blank c \<or> c = CHR '')'') ?s1"
  have "CHR '','' \<in> set ?s1"
    using assms by (intro in_set_dropWhile) (simp_all add: is_blank_def)
  then have "CHR '','' \<in> set ?s2"
    by (intro in_set_strip_tail) (simp_all add: is_blank_def)
  then obtain u v where "split_first CHR '','' ?s2 = Some (u, v)"
    using split_first_None_iff [of "CHR '',''" ?s2] by (cases "split_first CHR '','' ?s2") auto
  then show ?thesis
    by (simp add: parse_coordinates_def Let_def)
qed

text \<open>The searches in a scene whose objects other than the player have an id.\<close>

lemma find_player_defined: "find_player objs j \<noteq> Lookup_undefined"
  by (induction objs arbitrary: j) auto

lemma find_by_id_defined:
  "\<forall>ob \<in> set objs. obj_type ob \<noteq> otPlayer \<longrightarrow> obj_id ob \<noteq> None
     \<Longrightarrow> find_by_id ident objs j \<noteq> Lookup_undefined"
  by (induction objs arbitrary: j) (auto simp: strcmp_eq_def split: bool.splits)

lemma find_by_id_no_such:
  "\<forall>ob \<in> set objs. obj_type ob \<noteq> otPlayer \<longrightarrow> obj_id ob \<noteq> None
     \<Longrightarrow> \<forall>ob \<in> set objs. obj_type ob \<noteq> otPlayer \<longrightarrow> obj_id ob \<noteq> Some ident
     \<Longrightarrow> find_by_id ident objs j = Not_found"
  by (induction objs arbitrary: j) (auto simp: strcmp_eq_def)

lemma find_actor_defined:
  "\<forall>ob \<in> set objs. obj_type ob \<noteq> otPlayer \<longrightarrow> obj_id ob \<noteq> None
     \<Longrightarrow> acc \<noteq> Lookup_undefined \<Longrightarrow> find_actor tok objs j acc \<noteq> Lookup_undefined"
  by (induction objs arbitrary: j acc) (auto simp: strcmp_eq_def)

lemma find_actor_no_such:
  "\<forall>ob \<in> set objs. obj_type ob \<noteq> otPlayer \<longrightarrow> obj_id ob \<noteq> None
     \<Longrightarrow> \<forall>ob \<in> set objs. (obj_type ob = otPlayer \<longrightarrow> tok \<noteq> LOG_PLAYER)
            \<and> (obj_type ob \<noteq> otPlayer \<longrightarrow> obj_id ob \<noteq> Some tok)
     \<Longrightarrow> find_actor tok objs j acc = acc"
  by (induction objs arbitrary: j) (auto simp: strcmp_eq_def)

text \<open>A position entry moves an object and leaves its type and its id.\<close>

lemma moved_all:
  assumes "\<forall>ob \<in> set objects. Q (obj_type ob) (obj_id ob)"
  shows "\<forall>ob \<in> set (objects[i := (objects ! i)\<lparr>prev_pos := a, pos := b\<rparr>]).
           Q (obj_type ob) (obj_id ob)"
proof (cases "i < length objects")
  case True
  then have "Q (obj_type (objects ! i)) (obj_id (objects ! i))"
    using assms by simp
  then show ?thesis
    using assms set_update_subset_insert [of objects i "(objects ! i)\<lparr>prev_pos := a, pos := b\<rparr>"]
    by auto
next
  case False
  then show ?thesis using assms by (simp add: list_update_beyond)
qed

text \<open>One round of the loop over the entries of a position line.\<close>

lemma position_loop_cases:
  assumes "s \<noteq> []" and "dropWhile is_blank s = e"
    and "(case split_first CHR '';'' e of None \<Rightarrow> e | Some (u, v) \<Rightarrow> u) = entry"
  shows "position_loop atof nl objects s =
     (case split_first CHR '' '' entry of
        None \<Rightarrow> Failed
      | Some (ident, s1) \<Rightarrow>
          (case (if starts_with ident LOG_PLAYER then find_player objects 0
                 else find_by_id ident objects 0) of
             Lookup_undefined \<Rightarrow> Undef
           | Not_found \<Rightarrow> Failed
           | Found_at i \<Rightarrow>
               (case (if starts_with ident LOG_PLAYER then Some s1
                      else map_option snd (split_first CHR '' '' s1)) of
                  None \<Rightarrow> Failed
                | Some s2 \<Rightarrow>
                    (case parse_coordinates atof s2 of
                       Inl err \<Rightarrow> Failed
                     | Inr p \<Rightarrow>
                         (case split_first CHR '';'' e of
                            None \<Rightarrow>
                              if nl
                              then Done (objects[i := (objects ! i)
                                           \<lparr>prev_pos := pos (objects ! i), pos := p\<rparr>])
                              else Undef
                          | Some (u, v) \<Rightarrow>
                              position_loop atof nl
                                (objects[i := (objects ! i)
                                   \<lparr>prev_pos := pos (objects ! i), pos := p\<rparr>]) v)))))"
proof -
  obtain a t where s: "s = a # t" using assms(1) by (cases s) auto
  show ?thesis
    unfolding s position_loop.simps(2) Let_def assms(2) [unfolded s] assms(3)
    by (rule refl)
qed



lemma find_player_none:
  "\<not> list_ex (\<lambda>ob. obj_type ob = otPlayer) objs \<Longrightarrow> find_player objs j = Not_found"
  by (induction objs arbitrary: j) auto

lemma entry_lookup_unknown:
  assumes "\<forall>ob \<in> set objs. obj_type ob \<noteq> otPlayer \<longrightarrow> obj_id ob \<noteq> None"
    and "\<not> known_entry_id objs ident"
  shows "(if starts_with ident LOG_PLAYER then find_player objs 0
          else find_by_id ident objs 0) = Not_found"
  using assms(2) find_by_id_no_such [OF assms(1), of ident 0] find_player_none [of objs 0]
  by (auto simp: known_entry_id_def list_ex_iff split: if_splits)

lemma actor_lookup_unknown:
  assumes "\<forall>ob \<in> set objs. obj_type ob \<noteq> otPlayer \<longrightarrow> obj_id ob \<noteq> None"
    and "\<not> known_actor objs tok"
  shows "find_actor tok objs 0 Not_found = Not_found"
proof -
  have "\<forall>ob \<in> set objs. (obj_type ob = otPlayer \<longrightarrow> tok \<noteq> LOG_PLAYER)
            \<and> (obj_type ob \<noteq> otPlayer \<longrightarrow> obj_id ob \<noteq> Some tok)"
    using assms(2) by (auto simp: known_actor_def list_ex_iff split: if_splits)
  then show ?thesis by (rule find_actor_no_such [OF assms(1)])
qed

lemma moved_keys:
  "map (\<lambda>ob. (obj_type ob, obj_id ob)) (objects[i := (objects ! i)\<lparr>prev_pos := a, pos := b\<rparr>])
     = map (\<lambda>ob. (obj_type ob, obj_id ob)) objects"
  by (cases "i < length objects")
     (simp_all add: map_update list_update_beyond list_update_same_conv)

lemma known_entry_id_keys:
  "known_entry_id objects ident =
     (if starts_with ident LOG_PLAYER
      then list_ex (\<lambda>k. fst k = otPlayer) (map (\<lambda>ob. (obj_type ob, obj_id ob)) objects)
      else list_ex (\<lambda>k. fst k \<noteq> otPlayer \<and> snd k = Some ident)
             (map (\<lambda>ob. (obj_type ob, obj_id ob)) objects))"
  by (simp add: known_entry_id_def list_ex_iff)

lemma known_entry_id_moved:
  "known_entry_id (objects[i := (objects ! i)\<lparr>prev_pos := a, pos := b\<rparr>]) ident
     = known_entry_id objects ident"
  unfolding known_entry_id_keys moved_keys by (rule refl)

text \<open>A position line with an entry that names no object or has no comma is
  refused, whatever the entries in front of it.\<close>

lemma position_entry_refused:
  assumes "s \<noteq> []" and "dropWhile is_blank s = e"
    and "(case split_first CHR '';'' e of None \<Rightarrow> e | Some (u, v) \<Rightarrow> u) = entry"
    and ids: "\<forall>ob \<in> set objects. obj_type ob \<noteq> otPlayer \<longrightarrow> obj_id ob \<noteq> None"
    and viol: "(\<exists>ident s1. entry = ident @ CHR '' '' # s1 \<and> CHR '' '' \<notin> set ident
                  \<and> \<not> known_entry_id objects ident)
               \<or> CHR '','' \<notin> set entry"
  shows "position_loop atof nl objects s = Failed"
proof (cases "split_first CHR '' '' entry")
  case None
  then show ?thesis
    using position_loop_cases [OF assms(1-3), of atof nl objects] by simp
next
  case (Some a)
  then obtain ident s1 where sp: "split_first CHR '' '' entry = Some (ident, s1)"
    by (cases a) auto
  note en = split_first_Some [OF sp]
  from viol show ?thesis
  proof
    assume "\<exists>ident s1. entry = ident @ CHR '' '' # s1 \<and> CHR '' '' \<notin> set ident
                  \<and> \<not> known_entry_id objects ident"
    then obtain ident' s1' where e': "entry = ident' @ CHR '' '' # s1'"
      and ns: "CHR '' '' \<notin> set ident'"
      and un: "\<not> known_entry_id objects ident'"
      by blast
    have "split_first CHR '' '' entry = Some (ident', s1')"
      unfolding e' using ns by (rule split_first_append)
    then have "ident' = ident" using sp by simp
    then have "(if starts_with ident LOG_PLAYER then find_player objects 0
                else find_by_id ident objects 0) = Not_found"
      using entry_lookup_unknown [OF ids, of ident] un by simp
    then show ?thesis
      unfolding position_loop_cases [OF assms(1-3), of atof nl objects] sp by simp
  next
    assume nc: "CHR '','' \<notin> set entry"
    then have nc1: "CHR '','' \<notin> set s1" using en by auto
    have p1: "parse_coordinates atof s1 = Inl URSULA_CHECK_FORMAT_ERROR"
      using parse_coordinates_no_comma [OF nc1] .
    have p2: "parse_coordinates atof s2 = Inl URSULA_CHECK_FORMAT_ERROR"
      if "split_first CHR '' '' s1 = Some (x, s2)" for x s2
    proof -
      have "CHR '','' \<notin> set s2" using split_first_Some [OF that] nc1 by auto
      then show ?thesis by (rule parse_coordinates_no_comma)
    qed
    show ?thesis
    proof (cases "starts_with ident LOG_PLAYER")
      case True
      then show ?thesis
        using position_loop_cases [OF assms(1-3), of atof nl objects] sp p1
          find_player_defined [of objects 0]
        by (simp split: lookup.splits)
    next
      case False
      then show ?thesis
        using position_loop_cases [OF assms(1-3), of atof nl objects] sp p2
          find_by_id_defined [OF ids, of ident 0]
        by (auto split: lookup.splits option.splits)
    qed
  qed
qed

lemma position_entry_step:
  assumes "CHR '';'' \<notin> set p1"
    and ids: "\<forall>ob \<in> set objects. obj_type ob \<noteq> otPlayer \<longrightarrow> obj_id ob \<noteq> None"
  shows "position_loop atof nl objects (p1 @ CHR '';'' # w) = Failed
       \<or> (\<exists>i p. position_loop atof nl objects (p1 @ CHR '';'' # w) =
             position_loop atof nl
               (objects[i := (objects ! i)\<lparr>prev_pos := pos (objects ! i), pos := p\<rparr>]) w)"
proof -
  let ?s = "p1 @ CHR '';'' # w"
  let ?e = "dropWhile is_blank p1 @ CHR '';'' # w"
  have ne: "?s \<noteq> []" by simp
  have e: "dropWhile is_blank ?s = ?e"
    by (rule dropWhile_append_stop) (simp add: is_blank_def)
  have "CHR '';'' \<notin> set (dropWhile is_blank p1)"
    using assms(1) set_dropWhileD by fastforce
  then have sp: "split_first CHR '';'' ?e = Some (dropWhile is_blank p1, w)"
    by (rule split_first_append)
  then have en: "(case split_first CHR '';'' ?e of None \<Rightarrow> ?e | Some (u, v) \<Rightarrow> u)
                  = dropWhile is_blank p1"
    by simp
  show ?thesis
  proof (cases "split_first CHR '' '' (dropWhile is_blank p1)")
    case None
    then show ?thesis
      unfolding position_loop_cases [OF ne e en, of atof nl objects] by simp
  next
    case (Some a)
    then obtain ident s1 where
      t: "split_first CHR '' '' (dropWhile is_blank p1) = Some (ident, s1)"
      by (cases a) auto
    show ?thesis
    proof (cases "starts_with ident LOG_PLAYER")
      case True
      then show ?thesis
        unfolding position_loop_cases [OF ne e en, of atof nl objects] sp t
        using find_player_defined [of objects 0]
        by (auto split: lookup.splits sum.splits)
    next
      case False
      then show ?thesis
        unfolding position_loop_cases [OF ne e en, of atof nl objects] sp t
        using find_by_id_defined [OF ids, of ident 0]
        by (auto split: lookup.splits option.splits sum.splits)
    qed
  qed
qed

lemma position_violation:
  assumes "pre = [] \<or> last pre = CHR '';''"
    and "CHR '';'' \<notin> set bad" and "rst = [] \<or> hd rst = CHR '';''"
    and "\<exists>c \<in> set bad. \<not> is_blank c"
    and ids: "\<forall>ob \<in> set objects. obj_type ob \<noteq> otPlayer \<longrightarrow> obj_id ob \<noteq> None"
    and viol: "(\<exists>ident s1. dropWhile is_blank bad = ident @ CHR '' '' # s1
                  \<and> CHR '' '' \<notin> set ident \<and> \<not> known_entry_id objects ident)
               \<or> CHR '','' \<notin> set bad"
  shows "position_loop atof nl objects (pre @ bad @ rst) = Failed"
  using assms
proof (induction pre arbitrary: objects rule: length_induct)
  case (1 pre)
  show ?case
  proof (cases "pre = []")
    case True
    let ?e = "dropWhile is_blank bad"
    obtain c where c: "c \<in> set bad" "\<not> is_blank c" using "1.prems"(4) by blast
    have ne: "bad @ rst \<noteq> []" using c by auto
    have e: "dropWhile is_blank (bad @ rst) = ?e @ rst"
      using c by (simp add: dropWhile_append1)
    have ns: "CHR '';'' \<notin> set ?e"
      using "1.prems"(2) set_dropWhileD by fastforce
    have en: "(case split_first CHR '';'' (?e @ rst) of None \<Rightarrow> ?e @ rst | Some (u, v) \<Rightarrow> u) = ?e"
    proof (cases rst)
      case Nil
      then show ?thesis using ns split_first_None_iff [of "CHR '';''" ?e] by simp
    next
      case (Cons x xs)
      then have "rst = CHR '';'' # xs" using "1.prems"(3) by simp
      then show ?thesis using split_first_append [OF ns, of xs] by simp
    qed
    have v: "(\<exists>ident s1. ?e = ident @ CHR '' '' # s1 \<and> CHR '' '' \<notin> set ident
                  \<and> \<not> known_entry_id objects ident)
             \<or> CHR '','' \<notin> set ?e"
      using "1.prems"(6) set_dropWhileD by fastforce
    show ?thesis
      using position_entry_refused [OF ne e en "1.prems"(5) v] True by simp
  next
    case False
    then have "CHR '';'' \<in> set pre"
      using "1.prems"(1) last_in_set by fastforce
    then obtain p1 pre' where pre: "pre = p1 @ CHR '';'' # pre'" and p1: "CHR '';'' \<notin> set p1"
      using split_list_first by fastforce
    have l: "pre' = [] \<or> last pre' = CHR '';''"
      using "1.prems"(1) pre by (cases "pre' = []") simp_all
    have len: "length pre' < length pre" using pre by simp
    have s: "pre @ bad @ rst = p1 @ CHR '';'' # (pre' @ bad @ rst)"
      using pre by simp
    from position_entry_step [OF p1 "1.prems"(5), of atof nl "pre' @ bad @ rst"]
    show ?thesis
    proof
      assume "position_loop atof nl objects (p1 @ CHR '';'' # pre' @ bad @ rst) = Failed"
      then show ?thesis using s by simp
    next
      assume "\<exists>i p. position_loop atof nl objects (p1 @ CHR '';'' # pre' @ bad @ rst) =
             position_loop atof nl
               (objects[i := (objects ! i)\<lparr>prev_pos := pos (objects ! i), pos := p\<rparr>])
               (pre' @ bad @ rst)"
      then obtain i p where
        c: "position_loop atof nl objects (p1 @ CHR '';'' # pre' @ bad @ rst) =
             position_loop atof nl
               (objects[i := (objects ! i)\<lparr>prev_pos := pos (objects ! i), pos := p\<rparr>])
               (pre' @ bad @ rst)"
        by blast
      let ?o = "objects[i := (objects ! i)\<lparr>prev_pos := pos (objects ! i), pos := p\<rparr>]"
      have ids': "\<forall>ob \<in> set ?o. obj_type ob \<noteq> otPlayer \<longrightarrow> obj_id ob \<noteq> None"
        using moved_all [of objects "\<lambda>t i. t \<noteq> otPlayer \<longrightarrow> i \<noteq> None"] "1.prems"(5) by simp
      have v': "(\<exists>ident s1. dropWhile is_blank bad = ident @ CHR '' '' # s1
                  \<and> CHR '' '' \<notin> set ident \<and> \<not> known_entry_id ?o ident)
               \<or> CHR '','' \<notin> set bad"
        using "1.prems"(6) unfolding known_entry_id_moved .
      have "position_loop atof nl ?o (pre' @ bad @ rst) = Failed"
        using "1.IH" len l "1.prems"(2,3,4) ids' v' by blast
      then show ?thesis using s c by simp
    qed
  qed
qed

text \<open>The attack, attacked and died events with a token that names no object.\<close>

lemma attack_violation:
  assumes ids: "\<forall>ob \<in> set objects. obj_type ob \<noteq> otPlayer \<longrightarrow> obj_id ob \<noteq> None"
    and "s = t0 @ CHR '' '' # s1" and "CHR '' '' \<notin> set t0"
    and "\<not> known_actor objects t0
         \<or> (\<exists>t1 t2 t3 t4 s5.
              s1 = t1 @ CHR '' '' # t2 @ CHR '' '' # t3 @ CHR '' '' # t4 @ CHR '' '' # s5
              \<and> CHR '' '' \<notin> set (t1 @ t2 @ t3 @ t4) \<and> \<not> known_actor objects s5)"
  shows "attack_event atof task objects m s = Failed"
proof -
  have sp: "split_first CHR '' '' s = Some (t0, s1)"
    unfolding assms(2) using assms(3) by (rule split_first_append)
  from assms(4) show ?thesis
  proof
    assume "\<not> known_actor objects t0"
    then show ?thesis
      using sp actor_lookup_unknown [OF ids] by (simp add: attack_event_def)
  next
    assume "\<exists>t1 t2 t3 t4 s5.
              s1 = t1 @ CHR '' '' # t2 @ CHR '' '' # t3 @ CHR '' '' # t4 @ CHR '' '' # s5
              \<and> CHR '' '' \<notin> set (t1 @ t2 @ t3 @ t4) \<and> \<not> known_actor objects s5"
    then obtain t1 t2 t3 t4 s5 where
      s1: "s1 = t1 @ CHR '' '' # t2 @ CHR '' '' # t3 @ CHR '' '' # t4 @ CHR '' '' # s5"
      and n: "CHR '' '' \<notin> set t1" "CHR '' '' \<notin> set t2" "CHR '' '' \<notin> set t3"
             "CHR '' '' \<notin> set t4"
      and un: "\<not> known_actor objects s5"
      by auto
    have a: "split_first CHR '' '' s1
               = Some (t1, t2 @ CHR '' '' # t3 @ CHR '' '' # t4 @ CHR '' '' # s5)"
      unfolding s1 using n(1) by (rule split_first_append)
    have b: "split_first CHR '' '' (t2 @ CHR '' '' # t3 @ CHR '' '' # t4 @ CHR '' '' # s5)
               = Some (t2, t3 @ CHR '' '' # t4 @ CHR '' '' # s5)"
      using n(2) by (rule split_first_append)
    have c: "split_first CHR '' '' (t3 @ CHR '' '' # t4 @ CHR '' '' # s5)
               = Some (t3, t4 @ CHR '' '' # s5)"
      using n(3) by (rule split_first_append)
    have d: "split_first CHR '' '' (t4 @ CHR '' '' # s5) = Some (t4, s5)"
      using n(4) by (rule split_first_append)
    show ?thesis
      using find_actor_defined [OF ids, of Not_found t0 0]
        actor_lookup_unknown [OF ids un]
      by (simp add: attack_event_def sp a b c d split: lookup.splits)
  qed
qed

lemma attacked_violation:
  assumes ids: "\<forall>ob \<in> set objects. obj_type ob \<noteq> otPlayer \<longrightarrow> obj_id ob \<noteq> None"
    and "s = t0 @ CHR '' '' # s1" and "CHR '' '' \<notin> set t0"
    and "\<not> known_actor objects (strip_comma t0)"
  shows "attacked_event atof task objects m s = Failed"
proof -
  have sp: "split_first CHR '' '' s = Some (t0, s1)"
    unfolding assms(2) using assms(3) by (rule split_first_append)
  show ?thesis
    using sp actor_lookup_unknown [OF ids assms(4)] by (simp add: attacked_event_def)
qed

lemma died_violation:
  assumes ids: "\<forall>ob \<in> set objects. obj_type ob \<noteq> otPlayer \<longrightarrow> obj_id ob \<noteq> None"
    and "s = t0 @ CHR '' '' # s1" and "CHR '' '' \<notin> set t0"
    and "\<not> known_actor objects t0"
  shows "died_event task objects m s = Failed"
proof -
  have sp: "split_first CHR '' '' s = Some (t0, s1)"
    unfolding assms(2) using assms(3) by (rule split_first_append)
  show ?thesis
    using sp actor_lookup_unknown [OF ids assms(4)] by (simp add: died_event_def)
qed

text \<open>What holds of every reader that the loop over the lines comes to: each object
  other than the player has an id, and in the state \<^verbatim>\<open>'l'\<close> the objects and the matrix
  are allocated.\<close>

lemma position_loop_Done:
  assumes "position_loop atof nl objects s = Done objects'"
    and "\<forall>ob \<in> set objects. Q (obj_type ob) (obj_id ob)"
  shows "\<forall>ob \<in> set objects'. Q (obj_type ob) (obj_id ob)"
  using assms
proof (induction s arbitrary: objects rule: length_induct)
  case (1 s)
  show ?case
  proof (cases "s = []")
    case True
    then show ?thesis using "1.prems" by simp
  next
    case False
    note c = position_loop_cases [OF False refl refl, of atof nl objects]
    from "1.prems"(1) obtain i p where
      d: "(split_first CHR '';'' (dropWhile is_blank s) = None
            \<and> objects[i := (objects ! i)\<lparr>prev_pos := pos (objects ! i), pos := p\<rparr>] = objects')
          \<or> (\<exists>u v. split_first CHR '';'' (dropWhile is_blank s) = Some (u, v)
                \<and> position_loop atof nl
                    (objects[i := (objects ! i)\<lparr>prev_pos := pos (objects ! i), pos := p\<rparr>]) v
                  = Done objects')"
      unfolding c
      by (auto split: option.splits lookup.splits sum.splits if_splits
            simp del: position_loop.simps)
    let ?o = "objects[i := (objects ! i)\<lparr>prev_pos := pos (objects ! i), pos := p\<rparr>]"
    have m: "\<forall>ob \<in> set ?o. Q (obj_type ob) (obj_id ob)"
      using "1.prems"(2) by (rule moved_all)
    from d show ?thesis
    proof
      assume "split_first CHR '';'' (dropWhile is_blank s) = None \<and> ?o = objects'"
      then show ?thesis using m by simp
    next
      assume "\<exists>u v. split_first CHR '';'' (dropWhile is_blank s) = Some (u, v)
                \<and> position_loop atof nl ?o v = Done objects'"
      then obtain u v where sp: "split_first CHR '';'' (dropWhile is_blank s) = Some (u, v)"
        and r: "position_loop atof nl ?o v = Done objects'"
        by blast
      have "length v < length s" using sp by (rule dropWhile_tail_length)
      then show ?thesis using "1.IH" r m by blast
    qed
  qed
qed

lemma count_step_inv:
  assumes "count_step r buffer = Continue r' \<or> count_step r buffer = Rewind r'"
    and "rd_objects r = None" and "rd_state r = CHR ''o''"
  shows "(\<forall>objs. rd_objects r' = Some objs \<longrightarrow>
            (\<forall>ob \<in> set objs. obj_type ob \<noteq> otPlayer \<longrightarrow> obj_id ob \<noteq> None))
       \<and> (rd_state r' = CHR ''l'' \<longrightarrow> rd_objects r' \<noteq> None \<and> rd_cond_matrix r' \<noteq> None)"
  using assms
  by (auto simp: count_step_def Let_def zero_object_def split: if_splits)

lemma parse_object_id: "parse_object atof buffer ob = Some ob' \<Longrightarrow> obj_id ob' \<noteq> None"
  by (auto simp: parse_object_def split: option.splits if_splits sum.splits)

lemma ids_update:
  assumes "\<forall>ob \<in> set objects. obj_type ob \<noteq> otPlayer \<longrightarrow> obj_id ob \<noteq> None"
    and "obj_type x = otPlayer \<or> obj_id x \<noteq> None"
  shows "\<forall>ob \<in> set (objects[i := x]). obj_type ob \<noteq> otPlayer \<longrightarrow> obj_id ob \<noteq> None"
  using assms set_update_subset_insert [of objects i x] by fastforce

lemma scene_step_inv:
  assumes "scene_step atof r objects buffer = Continue r'
           \<or> scene_step atof r objects buffer = Rewind r'"
    and "\<forall>ob \<in> set objects. obj_type ob \<noteq> otPlayer \<longrightarrow> obj_id ob \<noteq> None"
    and "rd_state r = CHR ''o''"
  shows "(\<forall>objs. rd_objects r' = Some objs \<longrightarrow>
            (\<forall>ob \<in> set objs. obj_type ob \<noteq> otPlayer \<longrightarrow> obj_id ob \<noteq> None))
       \<and> (rd_state r' = CHR ''l'' \<longrightarrow> rd_objects r' \<noteq> None \<and> rd_cond_matrix r' \<noteq> None)"
proof -
  from assms(1,3) obtain i x where
    a: "rd_objects r' = Some (objects[i := x])"
    and b: "obj_type x = otPlayer \<or> obj_id x \<noteq> None"
    and c: "rd_state r' = CHR ''l'' \<longrightarrow> rd_cond_matrix r' \<noteq> None"
    by (auto simp: scene_step_def Let_def player_object_def
          split: if_splits option.splits dest!: parse_object_id)
  show ?thesis
    using a c ids_update [OF assms(2) b, of i] by simp
qed

text \<open>The loop from the reader that \<open>rounds\<close> gives ends as the loop from the
  start.\<close>

lemma rounds_read_log:
  "rounds atof file num rest r = Some (rest', r')
     \<Longrightarrow> read_log atof file rest r = read_log atof file rest' r'"
  by (induction atof "file" num rest r rule: rounds.induct) (auto split: step.splits)

lemma matrix_step_inv:
  assumes "matrix_step r0 x = Continue r'"
    and "rd_objects r0 = Some objs0"
    and "\<forall>ob \<in> set objs0. obj_type ob \<noteq> otPlayer \<longrightarrow> obj_id ob \<noteq> None"
  shows "(\<forall>objs. rd_objects r' = Some objs \<longrightarrow>
            (\<forall>ob \<in> set objs. obj_type ob \<noteq> otPlayer \<longrightarrow> obj_id ob \<noteq> None))
       \<and> (rd_state r' = CHR ''l'' \<longrightarrow> rd_objects r' \<noteq> None \<and> rd_cond_matrix r' \<noteq> None)"
  using assms by (auto simp: matrix_step_def split: res.splits)

text \<open>The event step on a line \<^verbatim>\<open>[time] text\<close>.\<close>

lemma event_step_line:
  assumes "fst lin = CHR ''['' # t" and "split_first CHR '']'' t = Some (tm, s0)"
    and "dropWhile is_blank s0 = s"
  shows "event_step atof r objects m lin =
     (if contains_str s LOG_POSITION then
        (case position_loop atof (snd lin) objects s of
           Failed \<Rightarrow> Error_log r
         | Undef \<Rightarrow> Undefined
         | Done objects' \<Rightarrow>
             matrix_step (r\<lparr>rd_objects := Some objects'\<rparr>)
               (case test_all_conditions (rd_task r) objects' m None 0 None 0 False of
                  None \<Rightarrow> Undef
                | Some m' \<Rightarrow> Done m'))
      else if starts_with s LOG_ATTACK then
        matrix_step r (attack_event atof (rd_task r) objects m (drop (length LOG_ATTACK) s))
      else if starts_with s LOG_ATTACKED then
        matrix_step r (attacked_event atof (rd_task r) objects m (drop (length LOG_ATTACKED) s))
      else if contains_str s LOG_DIED then
        matrix_step r (died_event (rd_task r) objects m s)
      else if starts_with s LOG_GAME_OVER then
        (if drop (length LOG_GAME_OVER) s \<noteq> LOG_WIN then Continue r
         else matrix_step r
                (case test_all_conditions (rd_task r) objects m None 0 None 0 True of
                   None \<Rightarrow> Undef
                 | Some m' \<Rightarrow> Done m'))
      else if starts_with s LOG_SESSION_ENDED then Break r
      else Error_log r)"
  unfolding event_step_def Let_def assms(1) list.case assms(2) option.case prod.case assms(3)
  by simp

lemma event_step_inv:
  assumes "event_step atof r objects m lin = Continue r'
           \<or> event_step atof r objects m lin = Rewind r'"
    and "\<forall>ob \<in> set objects. obj_type ob \<noteq> otPlayer \<longrightarrow> obj_id ob \<noteq> None"
    and "rd_objects r = Some objects" and "rd_cond_matrix r = Some m"
  shows "(\<forall>objs. rd_objects r' = Some objs \<longrightarrow>
            (\<forall>ob \<in> set objs. obj_type ob \<noteq> otPlayer \<longrightarrow> obj_id ob \<noteq> None))
       \<and> (rd_state r' = CHR ''l'' \<longrightarrow> rd_objects r' \<noteq> None \<and> rd_cond_matrix r' \<noteq> None)"
proof -
  from assms(1) have c: "event_step atof r objects m lin = Continue r'"
    by (simp add: event_step_not_Rewind)
  have same: ?thesis if "r' = r"
    using that assms(2-4) by simp
  have matrix: ?thesis if "matrix_step r x = Continue r'" for x
    using that assms(3,2) by (rule matrix_step_inv)
  show ?thesis
  proof (cases "fst lin")
    case Nil
    then show ?thesis using c same by (simp add: event_step_def)
  next
    case (Cons a t)
    show ?thesis
    proof (cases "a = CHR ''[''")
      case False
      then show ?thesis using c same Cons by (simp add: event_step_def)
    next
      case True
      show ?thesis
      proof (cases "split_first CHR '']'' t")
        case None
        then show ?thesis using c Cons True by (simp add: event_step_def)
      next
        case (Some q)
        then obtain tm s0 where sp: "split_first CHR '']'' t = Some (tm, s0)"
          by (cases q) auto
        have ln: "fst lin = CHR ''['' # t" using Cons True by simp
        note e = c [unfolded event_step_line [OF ln sp refl]]
        let ?s = "dropWhile is_blank s0"
        show ?thesis
        proof (cases "contains_str ?s LOG_POSITION")
          case True
          have e1: "(case position_loop atof (snd lin) objects ?s of
                Failed \<Rightarrow> Error_log r
              | Undef \<Rightarrow> Undefined
              | Done objects' \<Rightarrow>
                  matrix_step (r\<lparr>rd_objects := Some objects'\<rparr>)
                    (case test_all_conditions (rd_task r) objects' m None 0 None 0 False of
                       None \<Rightarrow> Undef
                     | Some m' \<Rightarrow> Done m')) = Continue r'"
            using e True by (simp only: if_True)
          obtain objects' where
            p: "position_loop atof (snd lin) objects ?s = Done objects'"
            and ms: "matrix_step (r\<lparr>rd_objects := Some objects'\<rparr>)
               (case test_all_conditions (rd_task r) objects' m None 0 None 0 False of
                  None \<Rightarrow> Undef
                | Some m' \<Rightarrow> Done m') = Continue r'"
          proof (cases "position_loop atof (snd lin) objects ?s")
            case (Done x)
            then show ?thesis using e1 that by (simp only: res.case)
          next
            case Failed
            then show ?thesis using e1 by (simp only: res.case step.distinct)
          next
            case Undef
            then show ?thesis using e1 by (simp only: res.case step.distinct)
          qed
          have "\<forall>ob \<in> set objects'. obj_type ob \<noteq> otPlayer \<longrightarrow> obj_id ob \<noteq> None"
            using position_loop_Done [OF p, of "\<lambda>t i. t \<noteq> otPlayer \<longrightarrow> i \<noteq> None"] assms(2)
            by simp
          then show ?thesis
            using matrix_step_inv [OF ms, of objects'] by simp
        next
          case False
          have e2: "(if starts_with ?s LOG_ATTACK then
                matrix_step r
                  (attack_event atof (rd_task r) objects m (drop (length LOG_ATTACK) ?s))
              else if starts_with ?s LOG_ATTACKED then
                matrix_step r
                  (attacked_event atof (rd_task r) objects m (drop (length LOG_ATTACKED) ?s))
              else if contains_str ?s LOG_DIED then
                matrix_step r (died_event (rd_task r) objects m ?s)
              else if starts_with ?s LOG_GAME_OVER then
                (if drop (length LOG_GAME_OVER) ?s \<noteq> LOG_WIN then Continue r
                 else matrix_step r
                        (case test_all_conditions (rd_task r) objects m None 0 None 0 True of
                           None \<Rightarrow> Undef
                         | Some m' \<Rightarrow> Done m'))
              else if starts_with ?s LOG_SESSION_ENDED then Break r
              else Error_log r) = Continue r'"
            using e False by (simp only: if_False)
          then consider "r = r'" | x where "matrix_step r x = Continue r'"
            by (auto split: if_splits)
          then show ?thesis using same matrix by cases blast+
        qed
      qed
    qed
  qed
qed

lemma log_step_inv:
  assumes "log_step atof r lin = Continue r' \<or> log_step atof r lin = Rewind r'"
    and "\<forall>objs. rd_objects r = Some objs \<longrightarrow>
            (\<forall>ob \<in> set objs. obj_type ob \<noteq> otPlayer \<longrightarrow> obj_id ob \<noteq> None)"
    and "rd_state r = CHR ''l'' \<longrightarrow> rd_objects r \<noteq> None \<and> rd_cond_matrix r \<noteq> None"
  shows "(\<forall>objs. rd_objects r' = Some objs \<longrightarrow>
            (\<forall>ob \<in> set objs. obj_type ob \<noteq> otPlayer \<longrightarrow> obj_id ob \<noteq> None))
       \<and> (rd_state r' = CHR ''l'' \<longrightarrow> rd_objects r' \<noteq> None \<and> rd_cond_matrix r' \<noteq> None)"
proof -
  consider (p) "rd_state r = CHR ''p''" | (s) "rd_state r = CHR ''s''"
    | (o) "rd_state r = CHR ''o''" | (l) "rd_state r = CHR ''l''"
    | (x) "rd_state r \<noteq> CHR ''p''" "rd_state r \<noteq> CHR ''s''" "rd_state r \<noteq> CHR ''o''"
          "rd_state r \<noteq> CHR ''l''"
    by blast
  then show ?thesis
  proof cases
    case p
    then show ?thesis
      using assms by (auto simp: log_step_def split: if_splits sum.splits)
  next
    case s
    then show ?thesis
      using assms by (auto simp: log_step_def split: if_splits)
  next
    case o
    show ?thesis
    proof (cases "rd_objects r")
      case None
      then show ?thesis
        using assms(1) o count_step_inv [of r "fst lin" r'] by (simp add: log_step_def)
    next
      case (Some objects)
      then show ?thesis
        using assms(1,2) o scene_step_inv [of atof r objects "fst lin" r']
        by (simp add: log_step_def)
    qed
  next
    case l
    then obtain objects m where "rd_objects r = Some objects" "rd_cond_matrix r = Some m"
      using assms(3) by auto
    then show ?thesis
      using assms(1,2) l event_step_inv [of atof r objects m lin r']
      by (simp add: log_step_def)
  next
    case x
    then show ?thesis using assms(1) by (simp add: log_step_def)
  qed
qed

lemma rounds_inv:
  assumes "rounds atof file num rest r = Some (rest', r')"
    and "\<forall>objs. rd_objects r = Some objs \<longrightarrow>
            (\<forall>ob \<in> set objs. obj_type ob \<noteq> otPlayer \<longrightarrow> obj_id ob \<noteq> None)"
    and "rd_state r = CHR ''l'' \<longrightarrow> rd_objects r \<noteq> None \<and> rd_cond_matrix r \<noteq> None"
  shows "(\<forall>objs. rd_objects r' = Some objs \<longrightarrow>
            (\<forall>ob \<in> set objs. obj_type ob \<noteq> otPlayer \<longrightarrow> obj_id ob \<noteq> None))
       \<and> (rd_state r' = CHR ''l'' \<longrightarrow> rd_objects r' \<noteq> None \<and> rd_cond_matrix r' \<noteq> None)"
  using assms
proof (induction atof "file" num rest r rule: rounds.induct)
  case (1 atof fl rest r)
  then show ?case by simp
next
  case (2 atof fl num r)
  then show ?case by simp
next
  case (3 atof fl num lin rest r)
  show ?case
  proof (cases "log_step atof r lin")
    case (Continue r1)
    then show ?thesis
      using 3 log_step_inv [of atof r lin r1] by simp
  next
    case (Rewind r1)
    then show ?thesis
      using 3 log_step_inv [of atof r lin r1] by simp
  qed (use "3.prems"(1) in simp_all)
qed

text \<open>
  C1. The claim is that a syntactic violation in the event section (an unrecognized event
  line, an unknown object id, an unterminated coordinate) makes the check return
  FormatError (2). In the code every failure while the log is read leaves through the one
  label \<^verbatim>\<open>error_log\<close>, which returns \<^verbatim>\<open>URSULA_CHECK_BAD_PARAMETERS\<close>; the code
  \<^verbatim>\<open>URSULA_CHECK_FORMAT_ERROR\<close> that \<^verbatim>\<open>parse_coordinates\<close> returns is tested against 0 and
  dropped; and \<^verbatim>\<open>parse_coordinates\<close> refuses a string only when it has no comma, so a
  coordinate that is not closed is read like any other. As amended: let the loop, after
  some rounds on the log, stand in the event section (state \<^verbatim>\<open>'l'\<close>) at a line that starts
  with \<^verbatim>\<open>[\<close> and that
  \<^item> has no \<^verbatim>\<open>]\<close>, or no known event token behind the time; or
  \<^item> is a position line with an entry (the text between two \<^verbatim>\<open>;\<close>) that is not blank and
    whose first token names no object of the scene, or that has no comma; or
  \<^item> is an attack line whose attacker or target, an attacked line whose target, or a
    died line whose first token names no object of the scene.

  Then the call returns BadParameters (1) with the result byte 0, which is not
  FormatError; no call on any log returns FormatError; and \<^verbatim>\<open>parse_coordinates\<close> takes a
  string exactly when it has a comma.
\<close>

theorem event_violation_bad_parameters:
  assumes "find_task task_name (tasks checker) 0 = Some k"
    and "rounds atof file num file (initial_reader (tasks checker ! k)) = Some (lin # rest, r)"
    and "rd_state r = CHR ''l''" and "rd_objects r = Some objects"
    and "fst lin = CHR ''['' # t"
    and "CHR '']'' \<notin> set t
         \<or> (\<exists>tm s0 s. t = tm @ CHR '']'' # s0 \<and> CHR '']'' \<notin> set tm
              \<and> s = dropWhile is_blank s0 \<and>
              ((\<not> contains_str s LOG_POSITION \<and> \<not> starts_with s LOG_ATTACK
                  \<and> \<not> starts_with s LOG_ATTACKED \<and> \<not> contains_str s LOG_DIED
                  \<and> \<not> starts_with s LOG_GAME_OVER \<and> \<not> starts_with s LOG_SESSION_ENDED)
               \<or> (contains_str s LOG_POSITION
                    \<and> (\<exists>pre bad rst. s = pre @ bad @ rst
                          \<and> (pre = [] \<or> last pre = CHR '';'') \<and> CHR '';'' \<notin> set bad
                          \<and> (rst = [] \<or> hd rst = CHR '';'')
                          \<and> (\<exists>c \<in> set bad. \<not> is_blank c)
                          \<and> ((\<exists>ident s1. dropWhile is_blank bad = ident @ CHR '' '' # s1
                                  \<and> CHR '' '' \<notin> set ident
                                  \<and> \<not> known_entry_id objects ident)
                               \<or> CHR '','' \<notin> set bad)))
               \<or> (\<not> contains_str s LOG_POSITION \<and> starts_with s LOG_ATTACK
                    \<and> (\<exists>t0 s1. drop (length LOG_ATTACK) s = t0 @ CHR '' '' # s1
                          \<and> CHR '' '' \<notin> set t0
                          \<and> (\<not> known_actor objects t0
                               \<or> (\<exists>t1 t2 t3 t4 s5.
                                     s1 = t1 @ CHR '' '' # t2 @ CHR '' '' # t3 @ CHR '' '' # t4
                                            @ CHR '' '' # s5
                                     \<and> CHR '' '' \<notin> set (t1 @ t2 @ t3 @ t4)
                                     \<and> \<not> known_actor objects s5))))
               \<or> (\<not> contains_str s LOG_POSITION \<and> \<not> starts_with s LOG_ATTACK
                    \<and> starts_with s LOG_ATTACKED
                    \<and> (\<exists>t0 s1. drop (length LOG_ATTACKED) s = t0 @ CHR '' '' # s1
                          \<and> CHR '' '' \<notin> set t0
                          \<and> \<not> known_actor objects (strip_comma t0)))
               \<or> (\<not> contains_str s LOG_POSITION \<and> \<not> starts_with s LOG_ATTACK
                    \<and> \<not> starts_with s LOG_ATTACKED \<and> contains_str s LOG_DIED
                    \<and> (\<exists>t0 s1. s = t0 @ CHR '' '' # s1 \<and> CHR '' '' \<notin> set t0
                          \<and> \<not> known_actor objects t0))))"
  shows "cyberiada_ursula_log_checker_check_log atof checker task_name file
           = Returned URSULA_CHECK_BAD_PARAMETERS URSULA_CHECK_RESULT_ERROR
               (checker\<lparr>tasks := (tasks checker)[k := rd_task r]\<rparr>)
         \<and> URSULA_CHECK_BAD_PARAMETERS \<noteq> URSULA_CHECK_FORMAT_ERROR
         \<and> (\<forall>f code res c. cyberiada_ursula_log_checker_check_log atof checker task_name f
               = Returned code res c \<longrightarrow> code \<noteq> URSULA_CHECK_FORMAT_ERROR)
         \<and> (\<forall>c. (\<exists>p. parse_coordinates atof c = Inr p) = (CHR '','' \<in> set c))"
proof -
  have inv: "(\<forall>objs. rd_objects r = Some objs \<longrightarrow>
            (\<forall>ob \<in> set objs. obj_type ob \<noteq> otPlayer \<longrightarrow> obj_id ob \<noteq> None))
       \<and> (rd_state r = CHR ''l'' \<longrightarrow> rd_objects r \<noteq> None \<and> rd_cond_matrix r \<noteq> None)"
    using assms(2) by (rule rounds_inv) (simp_all add: initial_reader_def)
  then have ids: "\<forall>ob \<in> set objects. obj_type ob \<noteq> otPlayer \<longrightarrow> obj_id ob \<noteq> None"
    using assms(4) by simp
  obtain m where m: "rd_cond_matrix r = Some m"
    using inv assms(3) by auto
  let ?token = "\<lambda>s. \<not> contains_str s LOG_POSITION \<and> \<not> starts_with s LOG_ATTACK
        \<and> \<not> starts_with s LOG_ATTACKED \<and> \<not> contains_str s LOG_DIED
        \<and> \<not> starts_with s LOG_GAME_OVER \<and> \<not> starts_with s LOG_SESSION_ENDED"
  let ?position = "\<lambda>s. contains_str s LOG_POSITION
        \<and> (\<exists>pre bad rst. s = pre @ bad @ rst
              \<and> (pre = [] \<or> last pre = CHR '';'') \<and> CHR '';'' \<notin> set bad
              \<and> (rst = [] \<or> hd rst = CHR '';'')
              \<and> (\<exists>c \<in> set bad. \<not> is_blank c)
              \<and> ((\<exists>ident s1. dropWhile is_blank bad = ident @ CHR '' '' # s1
                      \<and> CHR '' '' \<notin> set ident
                      \<and> \<not> known_entry_id objects ident)
                   \<or> CHR '','' \<notin> set bad))"
  let ?attack = "\<lambda>s. \<not> contains_str s LOG_POSITION \<and> starts_with s LOG_ATTACK
        \<and> (\<exists>t0 s1. drop (length LOG_ATTACK) s = t0 @ CHR '' '' # s1
              \<and> CHR '' '' \<notin> set t0
              \<and> (\<not> known_actor objects t0
                   \<or> (\<exists>t1 t2 t3 t4 s5.
                         s1 = t1 @ CHR '' '' # t2 @ CHR '' '' # t3 @ CHR '' '' # t4
                                @ CHR '' '' # s5
                         \<and> CHR '' '' \<notin> set (t1 @ t2 @ t3 @ t4)
                         \<and> \<not> known_actor objects s5)))"
  let ?attacked = "\<lambda>s. \<not> contains_str s LOG_POSITION \<and> \<not> starts_with s LOG_ATTACK
        \<and> starts_with s LOG_ATTACKED
        \<and> (\<exists>t0 s1. drop (length LOG_ATTACKED) s = t0 @ CHR '' '' # s1
              \<and> CHR '' '' \<notin> set t0
              \<and> \<not> known_actor objects (strip_comma t0))"
  let ?died = "\<lambda>s. \<not> contains_str s LOG_POSITION \<and> \<not> starts_with s LOG_ATTACK
        \<and> \<not> starts_with s LOG_ATTACKED \<and> contains_str s LOG_DIED
        \<and> (\<exists>t0 s1. s = t0 @ CHR '' '' # s1 \<and> CHR '' '' \<notin> set t0
              \<and> \<not> known_actor objects t0)"
  have ev: "event_step atof r objects m lin = Error_log r"
  proof (rule disjE [OF assms(6)])
    assume "CHR '']'' \<notin> set t"
    then have "split_first CHR '']'' t = None" by (simp add: split_first_None_iff)
    then show ?thesis using assms(5) by (simp add: event_step_def)
  next
    assume "\<exists>tm s0 s. t = tm @ CHR '']'' # s0 \<and> CHR '']'' \<notin> set tm
              \<and> s = dropWhile is_blank s0
              \<and> (?token s \<or> ?position s \<or> ?attack s \<or> ?attacked s \<or> ?died s)"
    then obtain tm s0 s where t: "t = tm @ CHR '']'' # s0" and tm: "CHR '']'' \<notin> set tm"
      and s: "s = dropWhile is_blank s0"
      and v: "?token s \<or> ?position s \<or> ?attack s \<or> ?attacked s \<or> ?died s"
      by (elim exE conjE) (rule that)
    have sp: "split_first CHR '']'' t = Some (tm, s0)"
      unfolding t using tm by (rule split_first_append)
    note e = event_step_line [OF assms(5) sp s [symmetric], of atof r objects m]
    have token: ?thesis if "?token s"
      unfolding e using that by simp
    have position: ?thesis if "?position s"
    proof -
      from that obtain pre bad rst where a: "contains_str s LOG_POSITION"
        and b: "s = pre @ bad @ rst"
          "pre = [] \<or> last pre = CHR '';''" "CHR '';'' \<notin> set bad"
          "rst = [] \<or> hd rst = CHR '';''" "\<exists>c \<in> set bad. \<not> is_blank c"
        and c: "(\<exists>ident s1. dropWhile is_blank bad = ident @ CHR '' '' # s1
                    \<and> CHR '' '' \<notin> set ident \<and> \<not> known_entry_id objects ident)
                \<or> CHR '','' \<notin> set bad"
        by (elim exE conjE) (rule that)
      have "position_loop atof (snd lin) objects s = Failed"
        unfolding b(1) using b(2-5) ids c by (rule position_violation)
      then show ?thesis unfolding e using a by simp
    qed
    have attack: ?thesis if "?attack s"
    proof -
      from that obtain t0 s1 where a: "\<not> contains_str s LOG_POSITION" "starts_with s LOG_ATTACK"
        and b: "drop (length LOG_ATTACK) s = t0 @ CHR '' '' # s1" "CHR '' '' \<notin> set t0"
          "\<not> known_actor objects t0
           \<or> (\<exists>t1 t2 t3 t4 s5.
                 s1 = t1 @ CHR '' '' # t2 @ CHR '' '' # t3 @ CHR '' '' # t4 @ CHR '' '' # s5
                 \<and> CHR '' '' \<notin> set (t1 @ t2 @ t3 @ t4) \<and> \<not> known_actor objects s5)"
        by (elim exE conjE) (rule that)
      have "attack_event atof (rd_task r) objects m (drop (length LOG_ATTACK) s) = Failed"
        using ids b by (rule attack_violation)
      then show ?thesis unfolding e using a by (simp add: matrix_step_def)
    qed
    have attacked: ?thesis if "?attacked s"
    proof -
      from that obtain t0 s1 where a: "\<not> contains_str s LOG_POSITION"
          "\<not> starts_with s LOG_ATTACK" "starts_with s LOG_ATTACKED"
        and b: "drop (length LOG_ATTACKED) s = t0 @ CHR '' '' # s1" "CHR '' '' \<notin> set t0"
          "\<not> known_actor objects (strip_comma t0)"
        by (elim exE conjE) (rule that)
      have "attacked_event atof (rd_task r) objects m (drop (length LOG_ATTACKED) s) = Failed"
        using ids b by (rule attacked_violation)
      then show ?thesis unfolding e using a by (simp add: matrix_step_def)
    qed
    have died: ?thesis if "?died s"
    proof -
      from that obtain t0 s1 where a: "\<not> contains_str s LOG_POSITION"
          "\<not> starts_with s LOG_ATTACK" "\<not> starts_with s LOG_ATTACKED"
          "contains_str s LOG_DIED"
        and b: "s = t0 @ CHR '' '' # s1" "CHR '' '' \<notin> set t0" "\<not> known_actor objects t0"
        by (elim exE conjE) (rule that)
      have "died_event (rd_task r) objects m s = Failed"
        using ids b by (rule died_violation)
      then show ?thesis unfolding e using a by (simp add: matrix_step_def)
    qed
    show ?thesis
      apply (rule disjE [OF v])
       apply (erule token)
      apply (erule disjE)
       apply (erule position)
      apply (erule disjE)
       apply (erule attack)
      apply (erule disjE)
       apply (erule attacked)
      apply (erule died)
      done
  qed
  then have "log_step atof r lin = Error_log r"
    using assms(3,4) m by (simp add: log_step_def)
  then have "read_log atof file (lin # rest) r = Goto_error_log r"
    by simp
  then have "check_task atof (tasks checker ! k) file
               = Returned URSULA_CHECK_BAD_PARAMETERS URSULA_CHECK_RESULT_ERROR (rd_task r)"
    using rounds_read_log [OF assms(2)] by (simp add: check_task_def)
  then have 1: "cyberiada_ursula_log_checker_check_log atof checker task_name file
           = Returned URSULA_CHECK_BAD_PARAMETERS URSULA_CHECK_RESULT_ERROR
               (checker\<lparr>tasks := (tasks checker)[k := rd_task r]\<rparr>)"
    using assms(1) by (simp add: cyberiada_ursula_log_checker_check_log_def)
  have 2: "URSULA_CHECK_BAD_PARAMETERS \<noteq> URSULA_CHECK_FORMAT_ERROR"
    by (simp add: URSULA_CHECK_BAD_PARAMETERS_def URSULA_CHECK_FORMAT_ERROR_def)
  have 3: "code \<noteq> URSULA_CHECK_FORMAT_ERROR"
    if "cyberiada_ursula_log_checker_check_log atof checker task_name f = Returned code res c"
    for f code res c
    using that
    by (auto simp: cyberiada_ursula_log_checker_check_log_def check_task_def
          URSULA_CHECK_BAD_PARAMETERS_def URSULA_CHECK_FORMAT_ERROR_def
          URSULA_CHECK_NO_ERROR_def
        split: option.splits outcome.splits stop.splits)
  have 4: "(\<exists>p. parse_coordinates atof c = Inr p) = (CHR '','' \<in> set c)" for c
    using parse_coordinates_comma [of c atof] parse_coordinates_no_comma [of c atof]
    by (cases "CHR '','' \<in> set c") simp_all
  show ?thesis
    apply (intro conjI allI)
       apply (rule 1)
      apply (rule 2)
     apply (rule impI, erule 3)
    apply (rule 4)
    done
qed

theorem event_violation_bad_parameters_witness:
  "cyberiada_ursula_log_checker_check_log atof_int won_checker ''T'' ghost_second_log
     = Returned URSULA_CHECK_BAD_PARAMETERS URSULA_CHECK_RESULT_ERROR
         (won_checker\<lparr>tasks := (tasks won_checker)[0 := rd_task events_reader]\<rparr>)"
proof -
  have h1: "find_task ''T'' (tasks won_checker) 0 = Some 0"
    by code_simp
  have h2: "rounds atof_int ghost_second_log 8 ghost_second_log
              (initial_reader (tasks won_checker ! 0))
          = Some ((''[1] Player (4,5); ghost_7 position: (1,1);'', True)
                    # [(''[2] Game Over: Win'', True)], events_reader)"
    by code_simp
  have h3: "rd_state events_reader = CHR ''l''"
    and h4: "rd_objects events_reader = Some [zombie, player45]"
    by (simp_all add: events_reader_def)
  have h5: "fst (''[1] Player (4,5); ghost_7 position: (1,1);'', True)
              = CHR ''['' # ''1] Player (4,5); ghost_7 position: (1,1);''"
    by simp
  have u: "\<not> known_entry_id [zombie, player45] ''ghost_7''"
    by code_simp
  have p: "contains_str ''Player (4,5); ghost_7 position: (1,1);'' LOG_POSITION"
    by code_simp
  have h6: "CHR '']'' \<notin> set ''1] Player (4,5); ghost_7 position: (1,1);''
         \<or> (\<exists>tm s0 s. ''1] Player (4,5); ghost_7 position: (1,1);'' = tm @ CHR '']'' # s0 \<and> CHR '']'' \<notin> set tm
              \<and> s = dropWhile is_blank s0 \<and>
              ((\<not> contains_str s LOG_POSITION \<and> \<not> starts_with s LOG_ATTACK
                  \<and> \<not> starts_with s LOG_ATTACKED \<and> \<not> contains_str s LOG_DIED
                  \<and> \<not> starts_with s LOG_GAME_OVER \<and> \<not> starts_with s LOG_SESSION_ENDED)
               \<or> (contains_str s LOG_POSITION
                    \<and> (\<exists>pre bad rst. s = pre @ bad @ rst
                          \<and> (pre = [] \<or> last pre = CHR '';'') \<and> CHR '';'' \<notin> set bad
                          \<and> (rst = [] \<or> hd rst = CHR '';'')
                          \<and> (\<exists>c \<in> set bad. \<not> is_blank c)
                          \<and> ((\<exists>ident s1. dropWhile is_blank bad = ident @ CHR '' '' # s1
                                  \<and> CHR '' '' \<notin> set ident
                                  \<and> \<not> known_entry_id [zombie, player45] ident)
                               \<or> CHR '','' \<notin> set bad)))
               \<or> (\<not> contains_str s LOG_POSITION \<and> starts_with s LOG_ATTACK
                    \<and> (\<exists>t0 s1. drop (length LOG_ATTACK) s = t0 @ CHR '' '' # s1
                          \<and> CHR '' '' \<notin> set t0
                          \<and> (\<not> known_actor [zombie, player45] t0
                               \<or> (\<exists>t1 t2 t3 t4 s5.
                                     s1 = t1 @ CHR '' '' # t2 @ CHR '' '' # t3 @ CHR '' '' # t4
                                            @ CHR '' '' # s5
                                     \<and> CHR '' '' \<notin> set (t1 @ t2 @ t3 @ t4)
                                     \<and> \<not> known_actor [zombie, player45] s5))))
               \<or> (\<not> contains_str s LOG_POSITION \<and> \<not> starts_with s LOG_ATTACK
                    \<and> starts_with s LOG_ATTACKED
                    \<and> (\<exists>t0 s1. drop (length LOG_ATTACKED) s = t0 @ CHR '' '' # s1
                          \<and> CHR '' '' \<notin> set t0
                          \<and> \<not> known_actor [zombie, player45] (strip_comma t0)))
               \<or> (\<not> contains_str s LOG_POSITION \<and> \<not> starts_with s LOG_ATTACK
                    \<and> \<not> starts_with s LOG_ATTACKED \<and> contains_str s LOG_DIED
                    \<and> (\<exists>t0 s1. s = t0 @ CHR '' '' # s1 \<and> CHR '' '' \<notin> set t0
                          \<and> \<not> known_actor [zombie, player45] t0))))"
    apply (rule disjI2)
    apply (rule exI [of _ "''1''"])
    apply (rule exI [of _ "'' Player (4,5); ghost_7 position: (1,1);''"])
    apply (rule exI [of _ "''Player (4,5); ghost_7 position: (1,1);''"])
    apply (intro conjI)
       apply simp
      apply simp
     apply (simp add: is_blank_def)
    apply (rule disjI2, rule disjI1)
    apply (rule conjI)
     apply (rule p)
    apply (rule exI [of _ "''Player (4,5);''"])
    apply (rule exI [of _ "'' ghost_7 position: (1,1)''"])
    apply (rule exI [of _ "'';''"])
    apply (intro conjI)
         apply simp
        apply simp
       apply simp
      apply simp
     apply (simp add: is_blank_def)
    apply (rule disjI1)
    apply (rule exI [of _ "''ghost_7''"])
    apply (rule exI [of _ "''position: (1,1)''"])
    apply (intro conjI)
      apply (simp add: is_blank_def)
     apply simp
    apply (rule u)
    done
  show ?thesis
    using event_violation_bad_parameters [OF h1 h2 h3 h4 h5 h6] by (rule conjunct1)
qed

text \<open>
  Four logs with the same scene and one bad event line each (an unknown event token, a
  died event and a position entry for an id that is not in the scene, player coordinates
  without a comma): each call returns BadParameters, not FormatError. Two logs whose
  position line has coordinates that are not closed, \<^verbatim>\<open>(4,5\<close>, or that have no second
  number, \<^verbatim>\<open>(1,)\<close>: each call returns no error, with the result of the win.
\<close>

theorem event_error_code_counterexample:
  "cyberiada_ursula_log_checker_check_log atof_int won_checker ''T'' jump_log
     = Returned URSULA_CHECK_BAD_PARAMETERS URSULA_CHECK_RESULT_ERROR won_checker
   \<and> cyberiada_ursula_log_checker_check_log atof_int won_checker ''T'' ghost_died_log
     = Returned URSULA_CHECK_BAD_PARAMETERS URSULA_CHECK_RESULT_ERROR won_checker
   \<and> cyberiada_ursula_log_checker_check_log atof_int won_checker ''T'' ghost_position_log
     = Returned URSULA_CHECK_BAD_PARAMETERS URSULA_CHECK_RESULT_ERROR won_checker
   \<and> cyberiada_ursula_log_checker_check_log atof_int won_checker ''T'' no_comma_log
     = Returned URSULA_CHECK_BAD_PARAMETERS URSULA_CHECK_RESULT_ERROR won_checker
   \<and> URSULA_CHECK_BAD_PARAMETERS \<noteq> URSULA_CHECK_FORMAT_ERROR
   \<and> cyberiada_ursula_log_checker_check_log atof_int won_checker ''T'' open_coordinate_log
     = Returned URSULA_CHECK_NO_ERROR 1 won_checker
   \<and> cyberiada_ursula_log_checker_check_log atof_int won_checker ''T'' empty_y_log
     = Returned URSULA_CHECK_NO_ERROR 1 won_checker
   \<and> URSULA_CHECK_NO_ERROR \<noteq> URSULA_CHECK_FORMAT_ERROR"
  by code_simp


section \<open>Running the check twice\<close>

text \<open>
  C4. The claim is that a second run on the same checker with the same inputs gives the
  same result as the first. The task requires exactly one mob of class zombie and the
  scene has one. The first call counts it in \<^verbatim>\<open>found\<close> (0 to 1) and returns no error with
  the result 1; the counter is not set back, so the second call on the checker that the
  first one left counts to 2, above the limit, and returns BadParameters with the result 0.
\<close>

theorem second_run_differs:
  "cyberiada_ursula_log_checker_check_log atof_int (one_zombie_checker 0) ''T'' one_mob_log
     = Returned URSULA_CHECK_NO_ERROR 1 (one_zombie_checker 1)
   \<and> cyberiada_ursula_log_checker_check_log atof_int (one_zombie_checker 1) ''T'' one_mob_log
     = Returned URSULA_CHECK_BAD_PARAMETERS URSULA_CHECK_RESULT_ERROR (one_zombie_checker 2)"
  by code_simp

end
